theory Spec2Isabelle
  imports Main "HOL-Library.Word" "HOL-Library.Sublist"
begin

unbundle bit_operations_syntax

section \<open>Bytes, machine integers and errors\<close>

type_synonym byte = "8 word"
type_synonym bytes = "byte list"
type_synonym uint64 = "64 word"

text \<open>
  The error values the codec returns. \<open>ErrUnexpectedEOF\<close> is what a read from a stream
  that ends too early reports, \<open>ErrSliceTooLarge\<close> what the decoder reports for a length
  prefix it refuses, \<open>ErrScan\<close> a failed \<open>fmt.Sscanf\<close>, \<open>ErrBigInt\<close> a text that
  \<open>big.Int\<close> cannot parse.
\<close>

datatype error =
    ErrUnexpectedEOF
  | ErrSliceTooLarge
  | ErrNegativeCurrency
  | ErrUnlockHashWrongLen
  | ErrInvalidUnlockHashChecksum
  | ErrScan
  | ErrBigInt

section \<open>The encoder and the decoder\<close>

text \<open>
  Little-endian digits in base 256: \<open>le_bytes k n\<close> is what
  \<open>binary.LittleEndian.PutUint64\<close> stores for \<open>k = 8\<close>, and \<open>le_val\<close> reads such
  digits back.
\<close>

fun le_bytes :: "nat \<Rightarrow> nat \<Rightarrow> bytes" where
  "le_bytes 0 n = []"
| "le_bytes (Suc k) n = word_of_nat (n mod 256) # le_bytes k (n div 256)"

fun le_val :: "bytes \<Rightarrow> nat" where
  "le_val [] = 0"
| "le_val (b # bs) = unat b + 256 * le_val bs"

text \<open>
  Modelled from the spec: the methods of \<open>encoding.Encoder\<close> (package \<open>encoding\<close> is not
  part of the sources at hand). An integer is written as 8 little-endian bytes, a bool
  as one byte, a byte string as its 8-byte length followed by the raw bytes. The
  encoder only ever appends to its output, so a sequence of writes is the concatenation
  of what each one writes.
\<close>

definition WriteUint64 :: "uint64 \<Rightarrow> bytes" where
  "WriteUint64 u = le_bytes 8 (unat u)"

definition WriteInt :: "nat \<Rightarrow> bytes" where
  \<comment> \<open>\<open>WriteInt(i int)\<close> is \<open>WriteUint64(uint64(i))\<close>; every caller passes a length.\<close>
  "WriteInt n = WriteUint64 (word_of_nat n)"

definition WriteBool :: "bool \<Rightarrow> bytes" where
  "WriteBool b = (if b then [1] else [0])"

definition WritePrefixedBytes :: "bytes \<Rightarrow> bytes" where
  "WritePrefixedBytes p = WriteInt (length p) @ p"

section \<open>Currency\<close>

text \<open>
  A \<open>Currency\<close> wraps a \<open>big.Int\<close>. \<open>big.Int.Bits\<close> returns the absolute value as
  little-endian machine words without leading zero words (64-bit words here, so
  \<open>_S = 8\<close>), \<open>big.Int.SetBytes\<close> reads a big-endian magnitude.
\<close>

record Currency =
  cur_i :: int

function nat_words :: "nat \<Rightarrow> uint64 list" where
  "nat_words n = (if n = 0 then [] else word_of_nat (n mod 2 ^ 64) # nat_words (n div 2 ^ 64))"
  by pat_completeness auto
termination
  by (relation "measure id") auto

declare nat_words.simps [simp del]

definition Bits :: "int \<Rightarrow> uint64 list" where
  "Bits x = nat_words (nat \<bar>x\<bar>)"

definition SetBytes :: "bytes \<Rightarrow> int" where
  "SetBytes buf = int (foldl (\<lambda>acc b. acc * 256 + unat b) 0 buf)"

text \<open>
  The first loop of \<open>Currency.MarshalPis\<close>,
  \<open>for i = len(bits)*_S - 1; i >= 0; i-- { if bits[i/_S]>>(uint(i%_S)*8) != 0 { break } }\<close>.
  The argument and the result are \<open>i + 1\<close>: the result is what \<open>WriteInt(i + 1)\<close>
  receives.
\<close>

fun seek :: "uint64 list \<Rightarrow> nat \<Rightarrow> nat" where
  "seek bits 0 = 0"
| "seek bits (Suc i) =
     (if drop_bit ((i mod 8) * 8) (bits ! (i div 8)) \<noteq> 0 then Suc i else seek bits i)"

text \<open>
  The second loop, \<open>for ; i >= 0; i-- { e.WriteByte(byte(bits[i/_S] >> (uint(i%_S) * 8))) }\<close>,
  again started at \<open>i + 1\<close>.
\<close>

fun write_bytes :: "uint64 list \<Rightarrow> nat \<Rightarrow> bytes" where
  "write_bytes bits 0 = []"
| "write_bytes bits (Suc i) =
     (ucast (drop_bit ((i mod 8) * 8) (bits ! (i div 8))) :: byte) # write_bytes bits i"

definition Currency_MarshalPis :: "Currency \<Rightarrow> bytes" where
  "Currency_MarshalPis c =
     (let bits = Bits (cur_i c);
          n = seek bits (length bits * 8)
      in WriteInt n @ write_bytes bits n)"

text \<open>
  \<open>Currency.MarshalPisSize\<close>: the inner loop over the bytes of one word returns whether
  it left through \<open>break zeros\<close>, and the size so far. A size is a Go \<open>int\<close>; it is
  an unbounded integer here, sizes near \<open>2 ^ 63\<close> bytes being out of reach.
\<close>

fun zeros_word :: "uint64 \<Rightarrow> nat \<Rightarrow> int \<Rightarrow> bool \<times> int" where
  "zeros_word w 0 sz = (False, sz)"
| "zeros_word w (Suc j) sz =
     (if drop_bit (j * 8) w \<noteq> 0 then (True, sz) else zeros_word w j (sz - 1))"

fun zeros :: "uint64 list \<Rightarrow> nat \<Rightarrow> int \<Rightarrow> int" where
  "zeros bits 0 sz = sz"
| "zeros bits (Suc i) sz =
     (case zeros_word (bits ! i) 8 sz of
        (True, sz') \<Rightarrow> sz'
      | (False, sz') \<Rightarrow> zeros bits i sz')"

definition Currency_MarshalPisSize :: "Currency \<Rightarrow> int" where
  "Currency_MarshalPisSize c =
     (let bits = Bits (cur_i c);
          sz = zeros bits (length bits) (int (length bits) * 8)
      in 8 + sz)"




type_synonym 'a decoder = "bytes \<Rightarrow> error + ('a \<times> bytes)"







text \<open>
  \<open>xs = make([]T, n); for i := range xs { xs[i].UnmarshalPis(d) }\<close>, and the matching
  \<open>for i := range xs { xs[i].MarshalPis(e) }\<close>.
\<close>

fun read_elems :: "'a decoder \<Rightarrow> nat \<Rightarrow> 'a list decoder" where
  "read_elems f 0 inp = Inr ([], inp)"
| "read_elems f (Suc n) inp =
     (case f inp of
        Inl e \<Rightarrow> Inl e
      | Inr (x, rest) \<Rightarrow>
          (case read_elems f n rest of
             Inl e \<Rightarrow> Inl e
           | Inr (xs, rest') \<Rightarrow> Inr (x # xs, rest')))"

definition write_elems :: "('a \<Rightarrow> bytes) \<Rightarrow> 'a list \<Rightarrow> bytes" where
  "write_elems f xs = concat (map f xs)"


section \<open>Fixed-size identifiers\<close>

text \<open>
  A hash, an identifier derived from one and an unlock hash are \<open>[32]byte\<close>, a specifier
  is \<open>[16]byte\<close>. They are byte lists here; the predicates \<open>wf_\<close> below say which lists
  are values of the Go types.
\<close>

definition HashSize :: nat where
  "HashSize = 32"


definition UnlockHashChecksumSize :: nat where
  "UnlockHashChecksumSize = 6"

section \<open>Covered fields\<close>

record CoveredFields =
  cf_WholeTransaction :: bool
  cf_PiscoinInputs :: "uint64 list"
  cf_PiscoinOutputs :: "uint64 list"
  cf_FileContracts :: "uint64 list"
  cf_FileContractRevisions :: "uint64 list"
  cf_StorageProofs :: "uint64 list"
  cf_PisfundInputs :: "uint64 list"
  cf_PisfundOutputs :: "uint64 list"
  cf_MinerFees :: "uint64 list"
  cf_ArbitraryData :: "uint64 list"
  cf_TransactionSignatures :: "uint64 list"

definition cf_fields :: "CoveredFields \<Rightarrow> uint64 list list" where
  "cf_fields cf =
     [cf_PiscoinInputs cf, cf_PiscoinOutputs cf, cf_FileContracts cf,
      cf_FileContractRevisions cf, cf_StorageProofs cf, cf_PisfundInputs cf,
      cf_PisfundOutputs cf, cf_MinerFees cf, cf_ArbitraryData cf,
      cf_TransactionSignatures cf]"

definition CoveredFields_MarshalPis :: "CoveredFields \<Rightarrow> bytes" where
  "CoveredFields_MarshalPis cf =
     WriteBool (cf_WholeTransaction cf) @
     write_elems (\<lambda>f. WriteInt (length f) @ write_elems WriteUint64 f) (cf_fields cf)"

definition CoveredFields_MarshalPisSize :: "CoveredFields \<Rightarrow> int" where
  "CoveredFields_MarshalPisSize cf =
     1
     + (8 + int (length (cf_PiscoinInputs cf)) * 8)
     + (8 + int (length (cf_PiscoinOutputs cf)) * 8)
     + (8 + int (length (cf_FileContracts cf)) * 8)
     + (8 + int (length (cf_FileContractRevisions cf)) * 8)
     + (8 + int (length (cf_StorageProofs cf)) * 8)
     + (8 + int (length (cf_PisfundInputs cf)) * 8)
     + (8 + int (length (cf_PisfundOutputs cf)) * 8)
     + (8 + int (length (cf_MinerFees cf)) * 8)
     + (8 + int (length (cf_ArbitraryData cf)) * 8)
     + (8 + int (length (cf_TransactionSignatures cf)) * 8)"


section \<open>Public keys and unlock conditions\<close>

record PisPublicKey =
  spk_Algorithm :: bytes
  spk_Key :: bytes

definition PisPublicKey_MarshalPis :: "PisPublicKey \<Rightarrow> bytes" where
  "PisPublicKey_MarshalPis spk = spk_Algorithm spk @ WritePrefixedBytes (spk_Key spk)"


record UnlockConditions =
  uc_Timelock :: uint64
  uc_PublicKeys :: "PisPublicKey list"
  uc_SignaturesRequired :: uint64

definition UnlockConditions_MarshalPis :: "UnlockConditions \<Rightarrow> bytes" where
  "UnlockConditions_MarshalPis uc =
     WriteUint64 (uc_Timelock uc) @
     WriteInt (length (uc_PublicKeys uc)) @
     write_elems PisPublicKey_MarshalPis (uc_PublicKeys uc) @
     WriteUint64 (uc_SignaturesRequired uc)"

definition UnlockConditions_MarshalPisSize :: "UnlockConditions \<Rightarrow> int" where
  "UnlockConditions_MarshalPisSize uc =
     8 + 8
     + (\<Sum>spk\<leftarrow>uc_PublicKeys uc. int (length (spk_Algorithm spk)) + (8 + int (length (spk_Key spk))))
     + 8"


section \<open>Inputs and outputs\<close>

record PiscoinInput =
  sci_ParentID :: bytes
  sci_UnlockConditions :: UnlockConditions

definition PiscoinInput_MarshalPis :: "PiscoinInput \<Rightarrow> bytes" where
  "PiscoinInput_MarshalPis sci =
     sci_ParentID sci @ UnlockConditions_MarshalPis (sci_UnlockConditions sci)"


record PiscoinOutput =
  sco_Value :: Currency
  sco_UnlockHash :: bytes

definition PiscoinOutput_MarshalPis :: "PiscoinOutput \<Rightarrow> bytes" where
  "PiscoinOutput_MarshalPis sco = Currency_MarshalPis (sco_Value sco) @ sco_UnlockHash sco"


record PisfundInput =
  sfi_ParentID :: bytes
  sfi_UnlockConditions :: UnlockConditions
  sfi_ClaimUnlockHash :: bytes

definition PisfundInput_MarshalPis :: "PisfundInput \<Rightarrow> bytes" where
  "PisfundInput_MarshalPis sfi =
     sfi_ParentID sfi @
     UnlockConditions_MarshalPis (sfi_UnlockConditions sfi) @
     sfi_ClaimUnlockHash sfi"


record PisfundOutput =
  sfo_Value :: Currency
  sfo_UnlockHash :: bytes
  sfo_ClaimStart :: Currency

definition PisfundOutput_MarshalPis :: "PisfundOutput \<Rightarrow> bytes" where
  "PisfundOutput_MarshalPis sfo =
     Currency_MarshalPis (sfo_Value sfo) @
     sfo_UnlockHash sfo @
     Currency_MarshalPis (sfo_ClaimStart sfo)"


section \<open>File contracts, revisions and storage proofs\<close>

record FileContract =
  fc_FileSize :: uint64
  fc_FileMerkleRoot :: bytes
  fc_WindowStart :: uint64
  fc_WindowEnd :: uint64
  fc_Payout :: Currency
  fc_ValidProofOutputs :: "PiscoinOutput list"
  fc_MissedProofOutputs :: "PiscoinOutput list"
  fc_UnlockHash :: bytes
  fc_RevisionNumber :: uint64

definition FileContract_MarshalPis :: "FileContract \<Rightarrow> bytes" where
  "FileContract_MarshalPis fc =
     WriteUint64 (fc_FileSize fc) @
     fc_FileMerkleRoot fc @
     WriteUint64 (fc_WindowStart fc) @
     WriteUint64 (fc_WindowEnd fc) @
     Currency_MarshalPis (fc_Payout fc) @
     WriteInt (length (fc_ValidProofOutputs fc)) @
     write_elems PiscoinOutput_MarshalPis (fc_ValidProofOutputs fc) @
     WriteInt (length (fc_MissedProofOutputs fc)) @
     write_elems PiscoinOutput_MarshalPis (fc_MissedProofOutputs fc) @
     fc_UnlockHash fc @
     WriteUint64 (fc_RevisionNumber fc)"

definition FileContract_MarshalPisSize :: "FileContract \<Rightarrow> int" where
  "FileContract_MarshalPisSize fc =
     8
     + int (length (fc_FileMerkleRoot fc))
     + (8 + 8)
     + Currency_MarshalPisSize (fc_Payout fc)
     + 8
     + (\<Sum>sco\<leftarrow>fc_ValidProofOutputs fc.
          Currency_MarshalPisSize (sco_Value sco) + int (length (sco_UnlockHash sco)))
     + 8
     + (\<Sum>sco\<leftarrow>fc_MissedProofOutputs fc.
          Currency_MarshalPisSize (sco_Value sco) + int (length (sco_UnlockHash sco)))
     + int (length (fc_UnlockHash fc))
     + 8"


record FileContractRevision =
  fcr_ParentID :: bytes
  fcr_UnlockConditions :: UnlockConditions
  fcr_NewRevisionNumber :: uint64
  fcr_NewFileSize :: uint64
  fcr_NewFileMerkleRoot :: bytes
  fcr_NewWindowStart :: uint64
  fcr_NewWindowEnd :: uint64
  fcr_NewValidProofOutputs :: "PiscoinOutput list"
  fcr_NewMissedProofOutputs :: "PiscoinOutput list"
  fcr_NewUnlockHash :: bytes

definition FileContractRevision_MarshalPis :: "FileContractRevision \<Rightarrow> bytes" where
  "FileContractRevision_MarshalPis fcr =
     fcr_ParentID fcr @
     UnlockConditions_MarshalPis (fcr_UnlockConditions fcr) @
     WriteUint64 (fcr_NewRevisionNumber fcr) @
     WriteUint64 (fcr_NewFileSize fcr) @
     fcr_NewFileMerkleRoot fcr @
     WriteUint64 (fcr_NewWindowStart fcr) @
     WriteUint64 (fcr_NewWindowEnd fcr) @
     WriteInt (length (fcr_NewValidProofOutputs fcr)) @
     write_elems PiscoinOutput_MarshalPis (fcr_NewValidProofOutputs fcr) @
     WriteInt (length (fcr_NewMissedProofOutputs fcr)) @
     write_elems PiscoinOutput_MarshalPis (fcr_NewMissedProofOutputs fcr) @
     fcr_NewUnlockHash fcr"

definition FileContractRevision_MarshalPisSize :: "FileContractRevision \<Rightarrow> int" where
  "FileContractRevision_MarshalPisSize fcr =
     int (length (fcr_ParentID fcr))
     + UnlockConditions_MarshalPisSize (fcr_UnlockConditions fcr)
     + 8
     + 8
     + int (length (fcr_NewFileMerkleRoot fcr))
     + (8 + 8)
     + 8
     + (\<Sum>sco\<leftarrow>fcr_NewValidProofOutputs fcr.
          Currency_MarshalPisSize (sco_Value sco) + int (length (sco_UnlockHash sco)))
     + 8
     + (\<Sum>sco\<leftarrow>fcr_NewMissedProofOutputs fcr.
          Currency_MarshalPisSize (sco_Value sco) + int (length (sco_UnlockHash sco)))
     + int (length (fcr_NewUnlockHash fcr))"


record StorageProof =
  sp_ParentID :: bytes
  sp_Segment :: bytes
  sp_HashSet :: "bytes list"

definition StorageProof_MarshalPis :: "StorageProof \<Rightarrow> bytes" where
  "StorageProof_MarshalPis sp =
     sp_ParentID sp @
     sp_Segment sp @
     WriteInt (length (sp_HashSet sp)) @
     write_elems (\<lambda>h. h) (sp_HashSet sp)"


section \<open>Transaction signatures\<close>

record TransactionSignature =
  ts_ParentID :: bytes
  ts_PublicKeyIndex :: uint64
  ts_Timelock :: uint64
  ts_CoveredFields :: CoveredFields
  ts_Signature :: bytes

definition TransactionSignature_MarshalPis :: "TransactionSignature \<Rightarrow> bytes" where
  "TransactionSignature_MarshalPis ts =
     ts_ParentID ts @
     WriteUint64 (ts_PublicKeyIndex ts) @
     WriteUint64 (ts_Timelock ts) @
     CoveredFields_MarshalPis (ts_CoveredFields ts) @
     WritePrefixedBytes (ts_Signature ts)"


section \<open>Transactions and blocks\<close>

text \<open>
  \<open>build.DEBUG\<close> is off in what follows: the debug build runs the same writes and reads
  through a second, reflective codec (not part of the sources at hand) and panics when
  the two disagree.
\<close>

record Transaction =
  t_PiscoinInputs :: "PiscoinInput list"
  t_PiscoinOutputs :: "PiscoinOutput list"
  t_FileContracts :: "FileContract list"
  t_FileContractRevisions :: "FileContractRevision list"
  t_StorageProofs :: "StorageProof list"
  t_PisfundInputs :: "PisfundInput list"
  t_PisfundOutputs :: "PisfundOutput list"
  t_MinerFees :: "Currency list"
  t_ArbitraryData :: "bytes list"
  t_TransactionSignatures :: "TransactionSignature list"

definition marshalPisNoSignatures :: "Transaction \<Rightarrow> bytes" where
  "marshalPisNoSignatures t =
     WriteInt (length (t_PiscoinInputs t)) @
     write_elems PiscoinInput_MarshalPis (t_PiscoinInputs t) @
     WriteInt (length (t_PiscoinOutputs t)) @
     write_elems PiscoinOutput_MarshalPis (t_PiscoinOutputs t) @
     WriteInt (length (t_FileContracts t)) @
     write_elems FileContract_MarshalPis (t_FileContracts t) @
     WriteInt (length (t_FileContractRevisions t)) @
     write_elems FileContractRevision_MarshalPis (t_FileContractRevisions t) @
     WriteInt (length (t_StorageProofs t)) @
     write_elems StorageProof_MarshalPis (t_StorageProofs t) @
     WriteInt (length (t_PisfundInputs t)) @
     write_elems PisfundInput_MarshalPis (t_PisfundInputs t) @
     WriteInt (length (t_PisfundOutputs t)) @
     write_elems PisfundOutput_MarshalPis (t_PisfundOutputs t) @
     WriteInt (length (t_MinerFees t)) @
     write_elems Currency_MarshalPis (t_MinerFees t) @
     WriteInt (length (t_ArbitraryData t)) @
     write_elems WritePrefixedBytes (t_ArbitraryData t)"

definition Transaction_MarshalPis :: "Transaction \<Rightarrow> bytes" where
  "Transaction_MarshalPis t =
     marshalPisNoSignatures t @
     WriteInt (length (t_TransactionSignatures t)) @
     write_elems TransactionSignature_MarshalPis (t_TransactionSignatures t)"

definition Transaction_MarshalPisSize :: "Transaction \<Rightarrow> int" where
  "Transaction_MarshalPisSize t =
     8
     + (\<Sum>sci\<leftarrow>t_PiscoinInputs t.
          int (length (sci_ParentID sci))
          + UnlockConditions_MarshalPisSize (sci_UnlockConditions sci))
     + 8
     + (\<Sum>sco\<leftarrow>t_PiscoinOutputs t.
          Currency_MarshalPisSize (sco_Value sco) + int (length (sco_UnlockHash sco)))
     + 8
     + (\<Sum>fc\<leftarrow>t_FileContracts t. FileContract_MarshalPisSize fc)
     + 8
     + (\<Sum>fcr\<leftarrow>t_FileContractRevisions t. FileContractRevision_MarshalPisSize fcr)
     + 8
     + (\<Sum>sp\<leftarrow>t_StorageProofs t.
          int (length (sp_ParentID sp))
          + int (length (sp_Segment sp))
          + (8 + int (length (sp_HashSet sp)) * int HashSize))
     + 8
     + (\<Sum>sfi\<leftarrow>t_PisfundInputs t.
          int (length (sfi_ParentID sfi))
          + int (length (sfi_ClaimUnlockHash sfi))
          + UnlockConditions_MarshalPisSize (sfi_UnlockConditions sfi))
     + 8
     + (\<Sum>sfo\<leftarrow>t_PisfundOutputs t.
          Currency_MarshalPisSize (sfo_Value sfo)
          + int (length (sfo_UnlockHash sfo))
          + Currency_MarshalPisSize (sfo_ClaimStart sfo))
     + 8
     + (\<Sum>fee\<leftarrow>t_MinerFees t. Currency_MarshalPisSize fee)
     + 8
     + (\<Sum>ad\<leftarrow>t_ArbitraryData t. 8 + int (length ad))
     + 8
     + (\<Sum>ts\<leftarrow>t_TransactionSignatures t.
          int (length (ts_ParentID ts))
          + 8
          + 8
          + CoveredFields_MarshalPisSize (ts_CoveredFields ts)
          + (8 + int (length (ts_Signature ts))))"





section \<open>Values of the Go types\<close>













definition wf_hashes :: "bytes list \<Rightarrow> bool" where
  "wf_hashes hs \<longleftrightarrow> list_all (\<lambda>h. length h = HashSize) hs"





section \<open>Text forms\<close>

text \<open>
  A Go string is a sequence of bytes, and so is a \<open>string\<close> here. \<open>copy(dst, src)\<close>
  overwrites the first \<open>min(len(dst), len(src))\<close> bytes of \<open>dst\<close>.
\<close>

definition byte_of_char :: "char \<Rightarrow> byte" where
  "byte_of_char c = word_of_nat (of_char c)"

definition char_of_byte :: "byte \<Rightarrow> char" where
  "char_of_byte b = char_of (unat b)"

definition copy_bytes :: "bytes \<Rightarrow> bytes \<Rightarrow> bytes" where
  "copy_bytes dst src = take (length dst) src @ drop (length src) dst"

subsection \<open>Hexadecimal text: \<open>fmt\<close> and \<open>encoding/hex\<close>\<close>

definition hexchar :: "nat \<Rightarrow> char" where
  "hexchar d = ''0123456789abcdef'' ! d"

definition fmt_x :: "bytes \<Rightarrow> string" where
  \<comment> \<open>\<open>fmt.Sprintf("%x", b)\<close> for a byte slice \<open>b\<close>\<close>
  "fmt_x bs = concat (map (\<lambda>b. [hexchar (unat b div 16), hexchar (unat b mod 16)]) bs)"

definition hexDigit :: "char \<Rightarrow> nat option" where
  "hexDigit c =
     (let d = (of_char c :: nat)
      in if 48 \<le> d \<and> d \<le> 57 then Some (d - 48)
         else if 97 \<le> d \<and> d \<le> 102 then Some (10 + d - 97)
         else if 65 \<le> d \<and> d \<le> 70 then Some (10 + d - 65)
         else None)"

text \<open>
  \<open>fmt.Sscanf(str, "%x", &b)\<close> for a byte slice \<open>b\<close>. It skips leading space (a newline
  is an error, since the format has none), wants some input left, and then reads hex
  pairs for as long as the next character is a hex digit; input left after that is not
  an error. \<open>space_width\<close> is the number of bytes of the space character that the input
  starts with (in UTF-8), or 0.
\<close>

definition space_width :: "nat list \<Rightarrow> nat" where
  "space_width s =
     (case s of
        [] \<Rightarrow> 0
      | a # s1 \<Rightarrow>
          if a = 9 \<or> a = 11 \<or> a = 12 \<or> a = 13 \<or> a = 32 then 1
          else (case s1 of
             [] \<Rightarrow> 0
           | b # s2 \<Rightarrow>
               if a = 0xC2 \<and> (b = 0x85 \<or> b = 0xA0) then 2
               else (case s2 of
                  [] \<Rightarrow> 0
                | c # _ \<Rightarrow>
                    if a = 0xE1 \<and> b = 0x9A \<and> c = 0x80 then 3
                    else if a = 0xE2 \<and> b = 0x80 \<and>
                            (0x80 \<le> c \<and> c \<le> 0x8A \<or> c = 0xA8 \<or> c = 0xA9 \<or> c = 0xAF) then 3
                    else if a = 0xE2 \<and> b = 0x81 \<and> c = 0x9F then 3
                    else if a = 0xE3 \<and> b = 0x80 \<and> c = 0x80 then 3
                    else 0)))"

function SkipSpace :: "string \<Rightarrow> error + string" where
  "SkipSpace s =
     (if s = [] then Inr []
      else if hd s = CHR 0x0A then Inl ErrScan
      else if space_width (map of_char s) = 0 then Inr s
      else SkipSpace (drop (space_width (map of_char s)) s))"
  by pat_completeness auto
termination
  by (relation "measure length") auto

declare SkipSpace.simps [simp del]

fun hexString :: "string \<Rightarrow> error + bytes" where
  "hexString [] = Inr []"
| "hexString [c] = (case hexDigit c of None \<Rightarrow> Inr [] | Some v1 \<Rightarrow> Inl ErrScan)"
| "hexString (c # d # rest) =
     (case hexDigit c of
        None \<Rightarrow> Inr []
      | Some v1 \<Rightarrow>
          (case hexDigit d of
             None \<Rightarrow> Inl ErrScan
           | Some v2 \<Rightarrow>
               (case hexString rest of
                  Inl e \<Rightarrow> Inl e
                | Inr bs \<Rightarrow> Inr (word_of_nat (v1 * 16 + v2) # bs))))"

definition Sscanf_x :: "string \<Rightarrow> error + bytes" where
  "Sscanf_x str =
     (case SkipSpace str of
        Inl e \<Rightarrow> Inl e
      | Inr s \<Rightarrow>
          if s = [] then Inl ErrScan
          else (case hexString s of
             Inl e \<Rightarrow> Inl e
           | Inr bs \<Rightarrow> if bs = [] then Inl ErrScan else Inr bs))"

fun hex_DecodeString :: "string \<Rightarrow> bytes option" where
  "hex_DecodeString [] = Some []"
| "hex_DecodeString [c] = None"
| "hex_DecodeString (c # d # rest) =
     (case (hexDigit c, hexDigit d) of
        (Some a, Some b) \<Rightarrow>
          (case hex_DecodeString rest of
             None \<Rightarrow> None
           | Some bs \<Rightarrow> Some (word_of_nat (a * 16 + b) # bs))
      | _ \<Rightarrow> None)"

subsection \<open>Unlock hashes\<close>

text \<open>
  Modelled from the spec: \<open>crypto.HashBytes\<close> and \<open>crypto.HashObject\<close> (package \<open>crypto\<close>
  is not part of the sources at hand). The hash function is the parameter \<open>H\<close>; its
  results are values of \<open>crypto.Hash\<close>, that is 32 bytes. \<open>HashObject\<close> hashes the
  encoding of its argument, and an unlock hash encodes as its raw bytes.
\<close>

definition HashBytes :: "(bytes \<Rightarrow> bytes) \<Rightarrow> bytes \<Rightarrow> bytes" where
  "HashBytes H b = H b"

definition HashObject_UnlockHash :: "(bytes \<Rightarrow> bytes) \<Rightarrow> bytes \<Rightarrow> bytes" where
  "HashObject_UnlockHash H uh = HashBytes H uh"

definition UnlockHash_String :: "(bytes \<Rightarrow> bytes) \<Rightarrow> bytes \<Rightarrow> string" where
  "UnlockHash_String H uh =
     (let uhChecksum = HashObject_UnlockHash H uh
      in fmt_x uh @ fmt_x (take UnlockHashChecksumSize uhChecksum))"

text \<open>
  \<open>UnlockHash.LoadString\<close> returns its error (\<open>None\<close> for \<open>nil\<close>) and the receiver as
  it is after the call.
\<close>

definition UnlockHash_LoadString ::
  "(bytes \<Rightarrow> bytes) \<Rightarrow> bytes \<Rightarrow> string \<Rightarrow> error option \<times> bytes" where
  "UnlockHash_LoadString H uh strUH =
     (if length strUH \<noteq> HashSize * 2 + UnlockHashChecksumSize * 2
      then (Some ErrUnlockHashWrongLen, uh)
      else (case Sscanf_x (take (HashSize * 2) strUH) of
         Inl err \<Rightarrow> (Some err, uh)
       | Inr byteUnlockHash \<Rightarrow>
           (case Sscanf_x (drop (HashSize * 2) strUH) of
              Inl err \<Rightarrow> (Some err, uh)
            | Inr checksum \<Rightarrow>
                (let expectedChecksum = HashBytes H byteUnlockHash
                 in if take UnlockHashChecksumSize expectedChecksum \<noteq> checksum
                    then (Some ErrInvalidUnlockHashChecksum, uh)
                    else (None, copy_bytes uh byteUnlockHash)))))"

subsection \<open>Specifiers\<close>

text \<open>
  \<open>Specifier.String\<close>: \<open>var i int; for i = range s { if s[i] == 0 { break } }\<close>.
  The loop assigns the indices of \<open>s\<close> to \<open>i\<close> one after the other; \<open>range_zero s k\<close>
  is the value of \<open>i\<close> after the loop when the elements \<open>s\<close> are still to be visited
  and the next index is \<open>k\<close>. After the last element \<open>i\<close> keeps the last index.
\<close>

fun range_zero :: "bytes \<Rightarrow> nat \<Rightarrow> nat" where
  "range_zero [] k = k"
| "range_zero [b] k = k"
| "range_zero (b # c # s) k = (if b = 0 then k else range_zero (c # s) (Suc k))"

definition Specifier_String :: "bytes \<Rightarrow> string" where
  "Specifier_String s = map char_of_byte (take (range_zero s 0) s)"

definition Specifier_copy :: "bytes \<Rightarrow> string \<Rightarrow> bytes" where
  \<comment> \<open>the \<open>copy(s[:], str)\<close> of \<open>Specifier.UnmarshalJSON\<close>, \<open>str\<close> being the decoded JSON string\<close>
  "Specifier_copy s str = copy_bytes s (map byte_of_char str)"

subsection \<open>Public keys\<close>

fun Split_colon :: "string \<Rightarrow> string list" where
  \<comment> \<open>\<open>strings.Split(s, ":")\<close>\<close>
  "Split_colon [] = [[]]"
| "Split_colon (c # s) =
     (if c = CHR '':'' then [] # Split_colon s
      else (case Split_colon s of
         [] \<Rightarrow> [[c]]
       | p # ps \<Rightarrow> (c # p) # ps))"

text \<open>\<open>PisPublicKey.LoadString\<close> has no result; the model returns the receiver after the call.\<close>

definition PisPublicKey_LoadString :: "PisPublicKey \<Rightarrow> string \<Rightarrow> PisPublicKey" where
  "PisPublicKey_LoadString spk s =
     (let parts = Split_colon s
      in if length parts \<noteq> 2 then spk
         else (case hex_DecodeString (parts ! 1) of
            None \<Rightarrow> spk\<lparr>spk_Key := []\<rparr>
          | Some key \<Rightarrow>
              spk\<lparr>spk_Key := key,
                  spk_Algorithm := copy_bytes (spk_Algorithm spk) (map byte_of_char (parts ! 0))\<rparr>))"

subsection \<open>Currency as JSON\<close>

text \<open>
  \<open>big.Int.String\<close> and \<open>big.Int.UnmarshalJSON\<close>. The latter leaves the receiver alone
  on \<open>null\<close> and otherwise parses the whole text with base 0: an optional sign, then
  \<open>0x\<close>, \<open>0b\<close> or a leading \<open>0\<close> select base 16, 2 or 8, and base 10 is used otherwise.
\<close>

function dec_nat :: "nat \<Rightarrow> string" where
  "dec_nat n =
     (if n < 10 then [char_of (48 + n)] else dec_nat (n div 10) @ [char_of (48 + n mod 10)])"
  by pat_completeness auto
termination
  by (relation "measure id") auto

declare dec_nat.simps [simp del]

definition big_String :: "int \<Rightarrow> string" where
  "big_String x = (if x < 0 then CHR ''-'' # dec_nat (nat (- x)) else dec_nat (nat x))"

definition digitval :: "char \<Rightarrow> nat" where
  "digitval ch =
     (let d = (of_char ch :: nat)
      in if 48 \<le> d \<and> d \<le> 57 then d - 48
         else if 97 \<le> d \<and> d \<le> 122 then d - 97 + 10
         else if 65 \<le> d \<and> d \<le> 90 then d - 65 + 10
         else 37)"

fun scan_digits :: "nat \<Rightarrow> string \<Rightarrow> nat \<Rightarrow> nat \<Rightarrow> nat \<times> nat \<times> string" where
  "scan_digits b [] acc cnt = (acc, cnt, [])"
| "scan_digits b (ch # s) acc cnt =
     (if digitval ch < b then scan_digits b s (acc * b + digitval ch) (Suc cnt)
      else (acc, cnt, ch # s))"

definition scan_base :: "nat \<Rightarrow> string \<Rightarrow> (nat \<times> string) option" where
  "scan_base b s =
     (case scan_digits b s 0 0 of
        (v, cnt, rest) \<Rightarrow>
          if cnt = 0 then (if b = 8 then Some (0, rest) else None) else Some (v, rest))"

definition nat_scan :: "string \<Rightarrow> (nat \<times> string) option" where
  "nat_scan s =
     (case s of
        [] \<Rightarrow> None
      | ch # s1 \<Rightarrow>
          if ch = CHR ''0'' then
            (case s1 of
               [] \<Rightarrow> Some (0, [])
             | ch2 # s2 \<Rightarrow>
                 if ch2 = CHR ''x'' \<or> ch2 = CHR ''X'' then
                   (if s2 = [] then None else scan_base 16 s2)
                 else if ch2 = CHR ''b'' \<or> ch2 = CHR ''B'' then
                   (if s2 = [] then None else scan_base 2 s2)
                 else scan_base 8 s1)
          else scan_base 10 s)"

definition big_SetString :: "string \<Rightarrow> int option" where
  "big_SetString s =
     (let (neg, s1) =
            (case s of
               [] \<Rightarrow> (False, s)
             | ch # r \<Rightarrow>
                 if ch = CHR ''-'' then (True, r)
                 else if ch = CHR ''+'' then (False, r)
                 else (False, s))
      in case nat_scan s1 of
           None \<Rightarrow> None
         | Some (v, rest) \<Rightarrow>
             if rest \<noteq> [] then None else Some (if neg then - int v else int v))"

definition big_UnmarshalJSON :: "int \<Rightarrow> string \<Rightarrow> int option" where
  "big_UnmarshalJSON z text = (if text = ''null'' then Some z else big_SetString text)"

definition Trim_quote :: "string \<Rightarrow> string" where
  \<comment> \<open>\<open>bytes.Trim(b, `"`)\<close>\<close>
  "Trim_quote b =
     rev (dropWhile (\<lambda>c. c = CHR 0x22) (rev (dropWhile (\<lambda>c. c = CHR 0x22) b)))"

definition Currency_MarshalJSON :: "Currency \<Rightarrow> string" where
  "Currency_MarshalJSON c = [CHR 0x22] @ big_String (cur_i c) @ [CHR 0x22]"

text \<open>
  \<open>Currency.UnmarshalJSON\<close> returns its error (\<open>None\<close> for \<open>nil\<close>) and the receiver
  after the call. When \<open>big.Int\<close> cannot parse the text the value of the receiver is
  not defined (\<open>None\<close>).
\<close>

definition Currency_UnmarshalJSON :: "Currency \<Rightarrow> string \<Rightarrow> error option \<times> Currency option" where
  "Currency_UnmarshalJSON c b =
     (case big_UnmarshalJSON (cur_i c) (Trim_quote b) of
        None \<Rightarrow> (Some ErrBigInt, None)
      | Some v \<Rightarrow>
          if v < 0 then (Some ErrNegativeCurrency, Some \<lparr>cur_i = 0\<rparr>)
          else (None, Some \<lparr>cur_i = v\<rparr>))"

section \<open>Example values\<close>


definition ex_hash :: bytes where
  "ex_hash = replicate 32 7"

definition ex_currency :: Currency where
  "ex_currency = \<lparr>cur_i = 1000000000000000000000000\<rparr>"

definition ex_spk :: PisPublicKey where
  "ex_spk = \<lparr>spk_Algorithm = map byte_of_char ''ed25519'' @ replicate 9 0,
             spk_Key = replicate 32 1\<rparr>"

definition ex_uc :: UnlockConditions where
  "ex_uc = \<lparr>uc_Timelock = 0, uc_PublicKeys = [ex_spk], uc_SignaturesRequired = 1\<rparr>"

definition ex_sci :: PiscoinInput where
  "ex_sci = \<lparr>sci_ParentID = ex_hash, sci_UnlockConditions = ex_uc\<rparr>"

definition ex_sco :: PiscoinOutput where
  "ex_sco = \<lparr>sco_Value = ex_currency, sco_UnlockHash = ex_hash\<rparr>"

definition ex_sfi :: PisfundInput where
  "ex_sfi = \<lparr>sfi_ParentID = ex_hash, sfi_UnlockConditions = ex_uc,
             sfi_ClaimUnlockHash = ex_hash\<rparr>"

definition ex_sfo :: PisfundOutput where
  "ex_sfo = \<lparr>sfo_Value = \<lparr>cur_i = 3\<rparr>, sfo_UnlockHash = ex_hash, sfo_ClaimStart = \<lparr>cur_i = 0\<rparr>\<rparr>"

definition ex_cf :: CoveredFields where
  "ex_cf = \<lparr>cf_WholeTransaction = False, cf_PiscoinInputs = [0], cf_PiscoinOutputs = [0, 1],
            cf_FileContracts = [], cf_FileContractRevisions = [], cf_StorageProofs = [],
            cf_PisfundInputs = [], cf_PisfundOutputs = [], cf_MinerFees = [2],
            cf_ArbitraryData = [], cf_TransactionSignatures = []\<rparr>"

definition ex_fc :: FileContract where
  "ex_fc = \<lparr>fc_FileSize = 4096, fc_FileMerkleRoot = ex_hash, fc_WindowStart = 10,
            fc_WindowEnd = 20, fc_Payout = ex_currency, fc_ValidProofOutputs = [ex_sco],
            fc_MissedProofOutputs = [ex_sco, ex_sco], fc_UnlockHash = ex_hash,
            fc_RevisionNumber = 0\<rparr>"

definition ex_fcr :: FileContractRevision where
  "ex_fcr = \<lparr>fcr_ParentID = ex_hash, fcr_UnlockConditions = ex_uc, fcr_NewRevisionNumber = 1,
             fcr_NewFileSize = 8192, fcr_NewFileMerkleRoot = ex_hash, fcr_NewWindowStart = 10,
             fcr_NewWindowEnd = 30, fcr_NewValidProofOutputs = [ex_sco],
             fcr_NewMissedProofOutputs = [], fcr_NewUnlockHash = ex_hash\<rparr>"

definition ex_sp :: StorageProof where
  "ex_sp = \<lparr>sp_ParentID = ex_hash, sp_Segment = replicate 64 0, sp_HashSet = [ex_hash, ex_hash]\<rparr>"

definition ex_ts :: TransactionSignature where
  "ex_ts = \<lparr>ts_ParentID = ex_hash, ts_PublicKeyIndex = 0, ts_Timelock = 0,
            ts_CoveredFields = ex_cf, ts_Signature = replicate 64 9\<rparr>"

definition ex_tx :: Transaction where
  "ex_tx = \<lparr>t_PiscoinInputs = [ex_sci], t_PiscoinOutputs = [ex_sco],
            t_FileContracts = [ex_fc], t_FileContractRevisions = [ex_fcr],
            t_StorageProofs = [ex_sp], t_PisfundInputs = [ex_sfi],
            t_PisfundOutputs = [ex_sfo], t_MinerFees = [ex_currency],
            t_ArbitraryData = [map byte_of_char ''hello''],
            t_TransactionSignatures = [ex_ts]\<rparr>"


definition ex_H :: "bytes \<Rightarrow> bytes" where
  \<comment> \<open>a stand-in for the hash function: 32 bytes that depend on the input\<close>
  "ex_H b = map (\<lambda>x. x + 1) (take 32 (b @ replicate 32 0))"

definition ex_bad_text :: string where
  \<comment> \<open>the hex of an unlock hash followed by a checksum that is not its own\<close>
  "ex_bad_text = fmt_x (replicate 32 1) @ fmt_x (replicate 6 0)"


section \<open>The encoder and the decoder undo each other\<close>

lemma le_bytes_length [simp]: "length (le_bytes k n) = k"
  by (induction k arbitrary: n) auto

lemma le_val_le_bytes: "n < 256 ^ k \<Longrightarrow> le_val (le_bytes k n) = n"
proof (induction k arbitrary: n)
  case 0 then show ?case by simp
next
  case (Suc k)
  have "n div 256 < 256 ^ k" using Suc.prems by (simp add: less_mult_imp_div_less mult.commute)
  then show ?case using Suc.IH[of "n div 256"] by (simp add: unat_of_nat)
qed

lemma unat_nat_words_nth:
  "q < length (nat_words n) \<Longrightarrow> unat (nat_words n ! q) = (n div 2 ^ (64 * q)) mod 2 ^ 64"
proof (induction n arbitrary: q rule: nat_words.induct)
  case (1 n)
  show ?case
  proof (cases "n = 0")
    case True with 1 show ?thesis by (simp add: nat_words.simps)
  next
    case False
    then have w: "nat_words n = word_of_nat (n mod 2 ^ 64) # nat_words (n div 2 ^ 64)"
      by (subst nat_words.simps) simp
    show ?thesis
    proof (cases q)
      case 0 then show ?thesis unfolding w by (simp add: unat_of_nat)
    next
      case (Suc q')
      have "q' < length (nat_words (n div 2 ^ 64))" using "1.prems" Suc unfolding w by simp
      from "1.IH"[OF False this] show ?thesis unfolding w Suc
        by (simp add: div_mult2_eq power_add)
    qed
  qed
qed

lemma nat_words_bound: "n < 2 ^ (64 * length (nat_words n))"
proof (induction n rule: nat_words.induct)
  case (1 n)
  show ?case
  proof (cases "n = 0")
    case True then show ?thesis by (simp add: nat_words.simps)
  next
    case False
    then have w: "nat_words n = word_of_nat (n mod 2 ^ 64) # nat_words (n div 2 ^ 64)"
      by (subst nat_words.simps) simp
    from "1.IH"[OF False] have "n div 2 ^ 64 < 2 ^ (64 * length (nat_words (n div 2 ^ 64)))" .
    then have "n < 2 ^ 64 * 2 ^ (64 * length (nat_words (n div 2 ^ 64)))"
      by (metis div_less_iff_less_mult mult.commute zero_less_numeral zero_less_power)
    then show ?thesis unfolding w by (simp add: power_add)
  qed
qed



lemma byte_of_word_nat:
  assumes "r < 8"
  shows "take_bit 8 (drop_bit (r * 8) (take_bit 64 (m::nat))) = take_bit 8 (drop_bit (r * 8) m)"
proof -
  have "drop_bit (r * 8) (take_bit 64 m) = take_bit (64 - r * 8) (drop_bit (r * 8) m)"
    by (rule drop_bit_take_bit)
  moreover have "min 8 (64 - r * 8) = 8" using assms by simp
  ultimately show ?thesis by (simp only: take_bit_take_bit)
qed

lemma byte_index:
  "take_bit 8 (drop_bit ((i mod 8) * 8) (drop_bit (64 * (i div 8)) (n::nat))) = (n div 256 ^ i) mod 256"
proof -
  have d: "(i mod 8) * 8 + 64 * (i div 8) = 8 * i"
  proof -
    define q r where "q = i div 8" and "r = i mod 8"
    have "i = q * 8 + r" by (simp add: q_def r_def)
    then have "r * 8 + 64 * q = 8 * i" by simp
    then show ?thesis by (simp only: q_def r_def)
  qed
  have p: "(256::nat) ^ i = 2 ^ (8 * i)" by (simp add: power_mult)
  have "drop_bit ((i mod 8) * 8) (drop_bit (64 * (i div 8)) n) = drop_bit (8 * i) n"
    by (simp only: drop_bit_drop_bit d)
  then show ?thesis
    by (simp only: take_bit_eq_mod drop_bit_eq_div p) simp
qed

lemma idx_bound: "8 * Suc i \<le> 64 * (i div 8) + 64"
proof -
  define q r where "q = i div 8" and "r = i mod 8"
  have "r < 8" and "i = q * 8 + r" by (simp_all add: q_def r_def)
  then have "8 * Suc i \<le> 64 * q + 64" by simp
  then show ?thesis by (simp only: q_def)
qed

lemma small_div:
  assumes "(n::nat) < 256 ^ Suc i"
  shows "take_bit 64 (drop_bit (64 * (i div 8)) n) = drop_bit (64 * (i div 8)) n"
proof -
  have "(2::nat) ^ (8 * Suc i) = (2 ^ 8) ^ Suc i" by (rule power_mult)
  also have "(2::nat) ^ 8 = 256" by simp
  finally have "n < 2 ^ (8 * Suc i)" using assms by simp
  also have "(2::nat) ^ (8 * Suc i) \<le> 2 ^ (64 * (i div 8) + 64)"
    using idx_bound by (rule power_increasing) simp
  finally have "n < 2 ^ (64 * (i div 8)) * 2 ^ 64" by (simp only: power_add)
  then have "n div 2 ^ (64 * (i div 8)) < 2 ^ 64"
    by (simp add: less_mult_imp_div_less mult.commute)
  then show ?thesis by (simp add: take_bit_eq_mod drop_bit_eq_div)
qed


lemma word_byte:
  assumes "i < 8 * length (nat_words n)"
  shows "unat (drop_bit ((i mod 8) * 8) (nat_words n ! (i div 8)))
         = drop_bit ((i mod 8) * 8) (take_bit 64 (drop_bit (64 * (i div 8)) n))"
proof -
  have "i div 8 < length (nat_words n)" using assms by auto
  then have "unat (nat_words n ! (i div 8)) = take_bit 64 (drop_bit (64 * (i div 8)) n)"
    by (simp only: unat_nat_words_nth take_bit_eq_mod drop_bit_eq_div)
  then show ?thesis by (simp only: unat_drop_bit_eq)
qed

lemma word_byte_small:
  assumes "i < 8 * length (nat_words n)" and "n < 256 ^ Suc i"
  shows "unat (drop_bit ((i mod 8) * 8) (nat_words n ! (i div 8))) = n div 256 ^ i"
proof -
  define q r where "q = i div 8" and "r = i mod 8"
  have "i = q * 8 + r" by (simp add: q_def r_def)
  then have d: "r * 8 + 64 * q = 8 * i" by simp
  have p: "(256::nat) ^ i = 2 ^ (8 * i)" by (simp add: power_mult)
  have "drop_bit (r * 8) (take_bit 64 (drop_bit (64 * q) n)) = drop_bit (r * 8) (drop_bit (64 * q) n)"
    unfolding q_def by (simp only: small_div[OF assms(2)])
  also have "\<dots> = drop_bit (8 * i) n" by (simp only: drop_bit_drop_bit d)
  also have "\<dots> = n div 256 ^ i" by (simp only: drop_bit_eq_div p)
  finally show ?thesis unfolding word_byte[OF assms(1)] q_def r_def .
qed

lemma word_byte_mod:
  assumes "i < 8 * length (nat_words n)"
  shows "unat (ucast (drop_bit ((i mod 8) * 8) (nat_words n ! (i div 8))) :: byte)
         = (n div 256 ^ i) mod 256"
proof -
  have "unat (ucast (drop_bit ((i mod 8) * 8) (nat_words n ! (i div 8))) :: byte)
        = take_bit 8 (unat (drop_bit ((i mod 8) * 8) (nat_words n ! (i div 8))))"
    by (simp add: unsigned_ucast_eq)
  also have "\<dots> = take_bit 8 (drop_bit ((i mod 8) * 8) (take_bit 64 (drop_bit (64 * (i div 8)) n)))"
    by (simp only: word_byte[OF assms])
  also have "\<dots> = take_bit 8 (drop_bit ((i mod 8) * 8) (drop_bit (64 * (i div 8)) n))"
    by (rule byte_of_word_nat) simp
  also have "\<dots> = (n div 256 ^ i) mod 256" by (rule byte_index)
  finally show ?thesis .
qed

lemma seek_le: "seek bits k \<le> k"
  by (induction k) auto

lemma seek_spec:
  "k \<le> 8 * length (nat_words n) \<Longrightarrow> n < 256 ^ k \<Longrightarrow>
   n < 256 ^ seek (nat_words n) k \<and>
   (0 < seek (nat_words n) k \<longrightarrow> 256 ^ (seek (nat_words n) k - 1) \<le> n)"
proof (induction k)
  case 0 then show ?case by simp
next
  case (Suc i)
  have i: "i < 8 * length (nat_words n)" using Suc.prems by simp
  have b: "unat (drop_bit ((i mod 8) * 8) (nat_words n ! (i div 8))) = n div 256 ^ i"
    using word_byte_small[OF i Suc.prems(2)] .
  show ?case
  proof (cases "drop_bit ((i mod 8) * 8) (nat_words n ! (i div 8)) = 0")
    case True
    then have "n div 256 ^ i = 0" using b by simp
    then have "n < 256 ^ i" by (simp add: div_eq_0_iff)
    then show ?thesis using Suc.IH i True by simp
  next
    case False
    then have "n div 256 ^ i \<noteq> 0" using b by (metis unat_eq_0)
    then have "256 ^ i \<le> n" by (simp add: div_eq_0_iff)
    then show ?thesis using False Suc.prems by simp
  qed
qed

lemma write_bytes_length [simp]: "length (write_bytes bits k) = k"
  by (induction k) auto

lemma foldl_be:
  "foldl (\<lambda>acc b. acc * 256 + unat (b::byte)) a bs
   = a * 256 ^ length bs + foldl (\<lambda>acc b. acc * 256 + unat b) 0 bs"
proof (induction bs arbitrary: a)
  case Nil then show ?case by simp
next
  case (Cons b bs)
  have "foldl (\<lambda>acc b. acc * 256 + unat b) a (b # bs)
        = foldl (\<lambda>acc b. acc * 256 + unat b) (a * 256 + unat b) bs" by simp
  also have "\<dots> = (a * 256 + unat b) * 256 ^ length bs + foldl (\<lambda>acc b. acc * 256 + unat b) 0 bs"
    by (rule Cons.IH)
  also have "foldl (\<lambda>acc b. acc * 256 + unat b) 0 (b # bs)
        = unat b * 256 ^ length bs + foldl (\<lambda>acc b. acc * 256 + unat b) 0 bs"
    using Cons.IH[of "unat b"] by simp
  ultimately show ?case by (simp add: algebra_simps)
qed

lemma write_bytes_val:
  "k \<le> 8 * length (nat_words n) \<Longrightarrow>
   foldl (\<lambda>acc b. acc * 256 + unat b) 0 (write_bytes (nat_words n) k) = n mod 256 ^ k"
proof (induction k)
  case 0 then show ?case by simp
next
  case (Suc i)
  have i: "i < 8 * length (nat_words n)" using Suc.prems by simp
  let ?b = "ucast (drop_bit ((i mod 8) * 8) (nat_words n ! (i div 8))) :: byte"
  have "n mod (256 ^ i * 256) = 256 ^ i * (n div 256 ^ i mod 256) + n mod 256 ^ i"
    by (rule mod_mult2_eq)
  then have m: "n mod 256 ^ Suc i = (n div 256 ^ i) mod 256 * 256 ^ i + n mod 256 ^ i"
    by (simp only: power_Suc2 mult.commute)
  have "foldl (\<lambda>acc b. acc * 256 + unat b) 0 (write_bytes (nat_words n) (Suc i))
        = foldl (\<lambda>acc b. acc * 256 + unat b) (unat ?b) (write_bytes (nat_words n) i)"
    by simp
  also have "\<dots> = unat ?b * 256 ^ i + foldl (\<lambda>acc b. acc * 256 + unat b) 0 (write_bytes (nat_words n) i)"
    using foldl_be[of "unat ?b" "write_bytes (nat_words n) i"] by simp
  also have "\<dots> = (n div 256 ^ i) mod 256 * 256 ^ i + n mod 256 ^ i"
    using Suc.IH i by (simp only: word_byte_mod[OF i])
  finally show ?case using m by simp
qed

lemma seek_top: "n < 256 ^ (8 * length (nat_words n))"
proof -
  have "(256::nat) ^ (8 * length (nat_words n)) = 2 ^ (64 * length (nat_words n))"
    by (simp add: power_mult)
  then show ?thesis using nat_words_bound[of n] by simp
qed

lemma hd_write_bytes:
  assumes "0 < seek (nat_words n) (8 * length (nat_words n))"
  shows "hd (write_bytes (nat_words n) (seek (nat_words n) (8 * length (nat_words n)))) \<noteq> 0"
proof -
  let ?s = "seek (nat_words n) (8 * length (nat_words n))"
  obtain i where s: "?s = Suc i" using assms by (cases ?s) auto
  have sp: "n < 256 ^ Suc i" "256 ^ i \<le> n"
    using seek_spec[OF order_refl seek_top, of n] unfolding s by simp_all
  have i: "i < 8 * length (nat_words n)"
    using seek_le[of "nat_words n" "8 * length (nat_words n)"] unfolding s by simp
  have "n div 256 ^ i < 256" using sp(1) by (simp add: less_mult_imp_div_less)
  moreover have "n div 256 ^ i \<noteq> 0" using sp(2) by (simp add: div_eq_0_iff)
  ultimately have "unat (ucast (drop_bit ((i mod 8) * 8) (nat_words n ! (i div 8))) :: byte) \<noteq> 0"
    unfolding word_byte_mod[OF i] by simp
  then have "(ucast (drop_bit ((i mod 8) * 8) (nat_words n ! (i div 8))) :: byte) \<noteq> 0"
    by (metis unat_eq_0)
  then show ?thesis unfolding s by simp
qed

lemma zeros_word_seek:
  "j \<le> 8 \<Longrightarrow> zeros_word (bits ! i) j (int (8 * i + j)) = (b, s) \<Longrightarrow>
   (b \<longrightarrow> s = int (seek bits (8 * i + j))) \<and>
   (\<not> b \<longrightarrow> s = int (8 * i) \<and> seek bits (8 * i + j) = seek bits (8 * i))"
proof (induction j arbitrary: b s)
  case 0 then show ?case by auto
next
  case (Suc j)
  have j: "(8 * i + j) mod 8 = j" "(8 * i + j) div 8 = i" using Suc.prems(1) by auto
  show ?case
  proof (cases "drop_bit (j * 8) (bits ! i) = 0")
    case True
    then have "zeros_word (bits ! i) j (int (8 * i + j)) = (b, s)" using Suc.prems(2)
      by (simp add: algebra_simps)
    from Suc.IH[OF _ this] Suc.prems(1) True j show ?thesis by simp
  next
    case False
    then show ?thesis using Suc.prems(2) j by auto
  qed
qed

lemma zeros_seek: "zeros bits i (int (8 * i)) = int (seek bits (8 * i))"
proof (induction i)
  case 0 then show ?case by simp
next
  case (Suc i)
  obtain b s where z: "zeros_word (bits ! i) 8 (int (8 * i + 8)) = (b, s)" by fastforce
  from zeros_word_seek[OF _ z] have
    h: "b \<longrightarrow> s = int (seek bits (8 * i + 8))"
       "\<not> b \<longrightarrow> s = int (8 * i) \<and> seek bits (8 * i + 8) = seek bits (8 * i)" by auto
  have e: "int (8 * Suc i) = int (8 * i + 8)" "8 * Suc i = 8 * i + 8" by simp_all
  show ?case unfolding zeros.simps e z using h Suc.IH by (cases b) auto
qed
lemma WriteUint64_length [simp]: "length (WriteUint64 u) = 8"
  by (simp add: WriteUint64_def)

lemma WriteInt_length [simp]: "length (WriteInt n) = 8"
  by (simp add: WriteInt_def)

lemma WritePrefixedBytes_length [simp]: "length (WritePrefixedBytes p) = 8 + length p"
  by (simp add: WritePrefixedBytes_def)


lemma write_elems_simps [simp]:
  "write_elems f [] = []" "write_elems f (x # xs) = f x @ write_elems f xs"
  by (simp_all add: write_elems_def)

lemma write_elems_length: "int (length (write_elems f xs)) = (\<Sum>x\<leftarrow>xs. int (length (f x)))"
  by (induction xs) simp_all






lemma read_elems_write_elems:
  assumes "\<And>x r. x \<in> set xs \<Longrightarrow> f (g x @ r) = Inr (x, r)"
  shows "read_elems f (length xs) (write_elems g xs @ rest) = Inr (xs, rest)"
  using assms by (induction xs) simp_all

section \<open>Currency: canonical form, size and round trip\<close>

lemma Currency_MarshalPis_eq:
  "Currency_MarshalPis c =
     WriteInt (seek (Bits (cur_i c)) (8 * length (Bits (cur_i c)))) @
     write_bytes (Bits (cur_i c)) (seek (Bits (cur_i c)) (8 * length (Bits (cur_i c))))"
  by (simp add: Currency_MarshalPis_def Let_def mult.commute)

lemma Currency_magnitude:
  "drop 8 (Currency_MarshalPis c) =
     write_bytes (Bits (cur_i c)) (seek (Bits (cur_i c)) (8 * length (Bits (cur_i c))))"
  by (simp add: Currency_MarshalPis_eq)

lemma Currency_magnitude_value: "SetBytes (drop 8 (Currency_MarshalPis c)) = \<bar>cur_i c\<bar>"
proof -
  let ?n = "nat \<bar>cur_i c\<bar>"
  let ?k = "seek (nat_words ?n) (8 * length (nat_words ?n))"
  have "?n < 256 ^ ?k" using seek_spec[OF order_refl seek_top, of ?n] by simp
  moreover have "foldl (\<lambda>acc b. acc * 256 + unat b) 0 (write_bytes (nat_words ?n) ?k) = ?n mod 256 ^ ?k"
    by (rule write_bytes_val) (rule seek_le)
  ultimately show ?thesis
    by (simp add: Currency_magnitude SetBytes_def Bits_def)
qed

lemma Currency_magnitude_hd: "take 1 (drop 8 (Currency_MarshalPis c)) \<noteq> [0]"
proof (cases "seek (Bits (cur_i c)) (8 * length (Bits (cur_i c)))")
  case 0
  then show ?thesis by (simp add: Currency_magnitude)
next
  case (Suc i)
  then have "hd (write_bytes (Bits (cur_i c)) (seek (Bits (cur_i c)) (8 * length (Bits (cur_i c))))) \<noteq> 0"
    unfolding Bits_def by (intro hd_write_bytes) simp
  then show ?thesis unfolding Currency_magnitude Suc by simp
qed

lemma Currency_MarshalPisSize_eq:
  "Currency_MarshalPisSize c = int (length (Currency_MarshalPis c))"
proof -
  have "zeros (Bits (cur_i c)) (length (Bits (cur_i c))) (int (8 * length (Bits (cur_i c))))
        = int (seek (Bits (cur_i c)) (8 * length (Bits (cur_i c))))"
    by (rule zeros_seek)
  then show ?thesis
    by (simp add: Currency_MarshalPisSize_def Currency_MarshalPis_eq Let_def mult.commute)
qed


text \<open>
  C3. \<open>Currency.MarshalPis\<close> writes an 8-byte length prefix, the number of magnitude
  bytes, and then the magnitude in big-endian order without a leading zero byte: the
  bytes after the prefix have the absolute value of the currency as their big-endian
  value and do not start with a zero byte. Zero is written as the prefix 0 and nothing
  else.
\<close>

theorem Currency_MarshalPis_canonical:
  "take 8 (Currency_MarshalPis c) = WriteInt (length (drop 8 (Currency_MarshalPis c)))
   \<and> length (take 8 (Currency_MarshalPis c)) = 8
   \<and> le_val (take 8 (Currency_MarshalPis c)) = length (drop 8 (Currency_MarshalPis c)) mod 2 ^ 64
   \<and> SetBytes (drop 8 (Currency_MarshalPis c)) = \<bar>cur_i c\<bar>
   \<and> take 1 (drop 8 (Currency_MarshalPis c)) \<noteq> [0]
   \<and> Currency_MarshalPis \<lparr>cur_i = 0\<rparr> = [0, 0, 0, 0, 0, 0, 0, 0]"
proof -
  let ?k = "seek (Bits (cur_i c)) (8 * length (Bits (cur_i c)))"
  have pre: "take 8 (Currency_MarshalPis c) = WriteInt ?k"
    by (simp add: Currency_MarshalPis_eq)
  have len: "length (drop 8 (Currency_MarshalPis c)) = ?k"
    by (simp add: Currency_magnitude)
  have u: "unat (word_of_nat ?k :: uint64) = ?k mod 2 ^ 64" by (simp add: unat_of_nat)
  have "le_val (le_bytes 8 (?k mod 2 ^ 64)) = ?k mod 2 ^ 64" by (rule le_val_le_bytes) simp
  then have v: "le_val (WriteInt ?k) = ?k mod 2 ^ 64"
    unfolding WriteInt_def WriteUint64_def u .
  have w0: "nat_words 0 = []" by (subst nat_words.simps) simp
  have e8: "(8::nat) = Suc (Suc (Suc (Suc (Suc (Suc (Suc (Suc 0)))))))" by simp
  have l0: "le_bytes 8 0 = [0, 0, 0, 0, 0, 0, 0, 0]" by (subst e8) simp
  have z: "Currency_MarshalPis \<lparr>cur_i = 0\<rparr> = [0, 0, 0, 0, 0, 0, 0, 0]"
    by (simp add: Currency_MarshalPis_def Bits_def w0 WriteInt_def WriteUint64_def l0)
  show ?thesis
  proof (intro conjI)
    show "take 8 (Currency_MarshalPis c) = WriteInt (length (drop 8 (Currency_MarshalPis c)))"
      unfolding len by (rule pre)
    show "length (take 8 (Currency_MarshalPis c)) = 8"
      unfolding pre by (rule WriteInt_length)
    show "le_val (take 8 (Currency_MarshalPis c))
          = length (drop 8 (Currency_MarshalPis c)) mod 2 ^ 64"
      unfolding pre len by (rule v)
    show "SetBytes (drop 8 (Currency_MarshalPis c)) = \<bar>cur_i c\<bar>"
      by (rule Currency_magnitude_value)
    show "take 1 (drop 8 (Currency_MarshalPis c)) \<noteq> [0]"
      by (rule Currency_magnitude_hd)
    show "Currency_MarshalPis \<lparr>cur_i = 0\<rparr> = [0, 0, 0, 0, 0, 0, 0, 0]"
      by (rule z)
  qed
qed


section \<open>Round trips\<close>
































section \<open>Sizes\<close>

lemma uint64s_length: "int (length (write_elems WriteUint64 f)) = int (length f) * 8"
  by (induction f) simp_all

lemma CoveredFields_MarshalPisSize_eq:
  "CoveredFields_MarshalPisSize cf = int (length (CoveredFields_MarshalPis cf))"
  by (simp add: CoveredFields_MarshalPisSize_def CoveredFields_MarshalPis_def cf_fields_def
      WriteBool_def uint64s_length)

lemma PisPublicKeys_size:
  "(\<Sum>spk\<leftarrow>xs. int (length (spk_Algorithm spk)) + (8 + int (length (spk_Key spk))))
   = int (length (write_elems PisPublicKey_MarshalPis xs))"
  by (induction xs) (simp_all add: PisPublicKey_MarshalPis_def)

lemma UnlockConditions_MarshalPisSize_eq:
  "UnlockConditions_MarshalPisSize uc = int (length (UnlockConditions_MarshalPis uc))"
  by (simp add: UnlockConditions_MarshalPisSize_def UnlockConditions_MarshalPis_def
      PisPublicKeys_size)

lemma PiscoinOutputs_size:
  "(\<Sum>sco\<leftarrow>xs. Currency_MarshalPisSize (sco_Value sco) + int (length (sco_UnlockHash sco)))
   = int (length (write_elems PiscoinOutput_MarshalPis xs))"
  by (induction xs) (simp_all add: PiscoinOutput_MarshalPis_def Currency_MarshalPisSize_eq)

lemma FileContract_MarshalPisSize_eq:
  "FileContract_MarshalPisSize fc = int (length (FileContract_MarshalPis fc))"
  unfolding FileContract_MarshalPisSize_def PiscoinOutputs_size
  by (simp add: FileContract_MarshalPis_def Currency_MarshalPisSize_eq)

lemma FileContractRevision_MarshalPisSize_eq:
  "FileContractRevision_MarshalPisSize fcr = int (length (FileContractRevision_MarshalPis fcr))"
  unfolding FileContractRevision_MarshalPisSize_def PiscoinOutputs_size
  by (simp add: FileContractRevision_MarshalPis_def UnlockConditions_MarshalPisSize_eq)

lemma PiscoinInputs_size:
  "(\<Sum>sci\<leftarrow>xs. int (length (sci_ParentID sci))
                 + UnlockConditions_MarshalPisSize (sci_UnlockConditions sci))
   = int (length (write_elems PiscoinInput_MarshalPis xs))"
  by (induction xs) (simp_all add: PiscoinInput_MarshalPis_def UnlockConditions_MarshalPisSize_eq)

lemma FileContracts_size:
  "(\<Sum>fc\<leftarrow>xs. FileContract_MarshalPisSize fc)
   = int (length (write_elems FileContract_MarshalPis xs))"
  by (induction xs) (simp_all add: FileContract_MarshalPisSize_eq)

lemma FileContractRevisions_size:
  "(\<Sum>fcr\<leftarrow>xs. FileContractRevision_MarshalPisSize fcr)
   = int (length (write_elems FileContractRevision_MarshalPis xs))"
  by (induction xs) (simp_all add: FileContractRevision_MarshalPisSize_eq)

lemma hashes_length:
  "wf_hashes hs \<Longrightarrow> int (length (write_elems (\<lambda>h. h) hs)) = int (length hs) * int HashSize"
  by (induction hs) (simp_all add: wf_hashes_def algebra_simps)

lemma StorageProofs_size:
  "list_all (\<lambda>sp. wf_hashes (sp_HashSet sp)) xs \<Longrightarrow>
   (\<Sum>sp\<leftarrow>xs. int (length (sp_ParentID sp)) + int (length (sp_Segment sp))
                + (8 + int (length (sp_HashSet sp)) * int HashSize))
   = int (length (write_elems StorageProof_MarshalPis xs))"
proof (induction xs)
  case Nil then show ?case by simp
next
  case (Cons sp xs)
  have "wf_hashes (sp_HashSet sp)" using Cons.prems by simp
  from hashes_length[OF this] Cons show ?case
    by (simp add: StorageProof_MarshalPis_def)
qed

lemma PisfundInputs_size:
  "(\<Sum>sfi\<leftarrow>xs. int (length (sfi_ParentID sfi)) + int (length (sfi_ClaimUnlockHash sfi))
                 + UnlockConditions_MarshalPisSize (sfi_UnlockConditions sfi))
   = int (length (write_elems PisfundInput_MarshalPis xs))"
  by (induction xs) (simp_all add: PisfundInput_MarshalPis_def UnlockConditions_MarshalPisSize_eq)

lemma PisfundOutputs_size:
  "(\<Sum>sfo\<leftarrow>xs. Currency_MarshalPisSize (sfo_Value sfo) + int (length (sfo_UnlockHash sfo))
                 + Currency_MarshalPisSize (sfo_ClaimStart sfo))
   = int (length (write_elems PisfundOutput_MarshalPis xs))"
  by (induction xs) (simp_all add: PisfundOutput_MarshalPis_def Currency_MarshalPisSize_eq)

lemma MinerFees_size:
  "(\<Sum>fee\<leftarrow>xs. Currency_MarshalPisSize fee) = int (length (write_elems Currency_MarshalPis xs))"
  by (induction xs) (simp_all add: Currency_MarshalPisSize_eq)

lemma ArbitraryData_size:
  "(\<Sum>ad\<leftarrow>xs. 8 + int (length ad)) = int (length (write_elems WritePrefixedBytes xs))"
  by (induction xs) simp_all

lemma TransactionSignatures_size:
  "(\<Sum>ts\<leftarrow>xs. int (length (ts_ParentID ts)) + 8 + 8
                + CoveredFields_MarshalPisSize (ts_CoveredFields ts)
                + (8 + int (length (ts_Signature ts))))
   = int (length (write_elems TransactionSignature_MarshalPis xs))"
  by (induction xs)
     (simp_all add: TransactionSignature_MarshalPis_def CoveredFields_MarshalPisSize_eq)

lemma Transaction_MarshalPisSize_eq:
  assumes "list_all (\<lambda>sp. wf_hashes (sp_HashSet sp)) (t_StorageProofs t)"
  shows "Transaction_MarshalPisSize t = int (length (Transaction_MarshalPis t))"
  unfolding Transaction_MarshalPisSize_def PiscoinInputs_size PiscoinOutputs_size
    FileContracts_size FileContractRevisions_size StorageProofs_size[OF assms]
    PisfundInputs_size PisfundOutputs_size MinerFees_size ArbitraryData_size
    TransactionSignatures_size
  by (simp add: Transaction_MarshalPis_def marshalPisNoSignatures_def)


section \<open>The example values are values of their types\<close>



















section \<open>The claims about the binary codec\<close>



text \<open>
  C2. For every value of every type with a size function, \<open>MarshalPisSize\<close> is the
  number of bytes that \<open>MarshalPis\<close> writes. The size functions add up lengths and never
  call the encoder. For a transaction the hashes of its storage proofs are values of
  \<open>crypto.Hash\<close>, that is, they have \<open>HashSize\<close> bytes.
\<close>

theorem MarshalPisSize_exact:
  "Currency_MarshalPisSize c = int (length (Currency_MarshalPis c))
   \<and> CoveredFields_MarshalPisSize cf = int (length (CoveredFields_MarshalPis cf))
   \<and> FileContract_MarshalPisSize fc = int (length (FileContract_MarshalPis fc))
   \<and> FileContractRevision_MarshalPisSize fcr = int (length (FileContractRevision_MarshalPis fcr))
   \<and> UnlockConditions_MarshalPisSize uc = int (length (UnlockConditions_MarshalPis uc))
   \<and> (list_all (\<lambda>sp. wf_hashes (sp_HashSet sp)) (t_StorageProofs t) \<longrightarrow>
        Transaction_MarshalPisSize t = int (length (Transaction_MarshalPis t)))"
  by (intro conjI impI Currency_MarshalPisSize_eq CoveredFields_MarshalPisSize_eq
      FileContract_MarshalPisSize_eq FileContractRevision_MarshalPisSize_eq
      UnlockConditions_MarshalPisSize_eq Transaction_MarshalPisSize_eq)

theorem MarshalPisSize_exact_witness:
  "list_all (\<lambda>sp. wf_hashes (sp_HashSet sp)) (t_StorageProofs ex_tx)
   \<and> Transaction_MarshalPisSize ex_tx = int (length (Transaction_MarshalPis ex_tx))
   \<and> Currency_MarshalPisSize ex_currency = int (length (Currency_MarshalPis ex_currency))"
proof -
  have h: "list_all (\<lambda>sp. wf_hashes (sp_HashSet sp)) (t_StorageProofs ex_tx)"
    by (simp add: ex_tx_def ex_sp_def wf_hashes_def ex_hash_def HashSize_def)
  show ?thesis using h MarshalPisSize_exact[of ex_currency ex_cf ex_fc ex_fcr ex_uc ex_tx]
    by simp
qed

text \<open>
  C9. The encoding of a transaction is its encoding without signatures, then the number
  of signatures as 8 bytes, then the encoding of every signature in order. So the
  encoding without signatures is a prefix of the full one. It consists of the nine other
  sequences and does not depend on the signatures.
\<close>

theorem Transaction_MarshalPis_prefix:
  "Transaction_MarshalPis t =
     marshalPisNoSignatures t @
     WriteInt (length (t_TransactionSignatures t)) @
     concat (map TransactionSignature_MarshalPis (t_TransactionSignatures t))
   \<and> length (WriteInt (length (t_TransactionSignatures t))) = 8
   \<and> prefix (marshalPisNoSignatures t) (Transaction_MarshalPis t)
   \<and> marshalPisNoSignatures (t\<lparr>t_TransactionSignatures := sigs\<rparr>) = marshalPisNoSignatures t
   \<and> marshalPisNoSignatures t =
       WriteInt (length (t_PiscoinInputs t)) @
       concat (map PiscoinInput_MarshalPis (t_PiscoinInputs t)) @
       WriteInt (length (t_PiscoinOutputs t)) @
       concat (map PiscoinOutput_MarshalPis (t_PiscoinOutputs t)) @
       WriteInt (length (t_FileContracts t)) @
       concat (map FileContract_MarshalPis (t_FileContracts t)) @
       WriteInt (length (t_FileContractRevisions t)) @
       concat (map FileContractRevision_MarshalPis (t_FileContractRevisions t)) @
       WriteInt (length (t_StorageProofs t)) @
       concat (map StorageProof_MarshalPis (t_StorageProofs t)) @
       WriteInt (length (t_PisfundInputs t)) @
       concat (map PisfundInput_MarshalPis (t_PisfundInputs t)) @
       WriteInt (length (t_PisfundOutputs t)) @
       concat (map PisfundOutput_MarshalPis (t_PisfundOutputs t)) @
       WriteInt (length (t_MinerFees t)) @
       concat (map Currency_MarshalPis (t_MinerFees t)) @
       WriteInt (length (t_ArbitraryData t)) @
       concat (map WritePrefixedBytes (t_ArbitraryData t))"
proof (intro conjI)
  show "Transaction_MarshalPis t =
     marshalPisNoSignatures t @
     WriteInt (length (t_TransactionSignatures t)) @
     concat (map TransactionSignature_MarshalPis (t_TransactionSignatures t))"
    by (simp add: Transaction_MarshalPis_def write_elems_def)
  then show "prefix (marshalPisNoSignatures t) (Transaction_MarshalPis t)"
    by (simp add: prefix_def)
  show "length (WriteInt (length (t_TransactionSignatures t))) = 8"
    by (rule WriteInt_length)
  show "marshalPisNoSignatures (t\<lparr>t_TransactionSignatures := sigs\<rparr>) = marshalPisNoSignatures t"
    by (simp add: marshalPisNoSignatures_def)
qed (simp add: marshalPisNoSignatures_def write_elems_def)


section \<open>Unlock hashes as text\<close>

lemma fmt_x_length [simp]: "length (fmt_x bs) = 2 * length bs"
  by (induction bs) (simp_all add: fmt_x_def)

lemma fmt_x_Cons:
  "fmt_x (b # bs) = hexchar (unat b div 16) # hexchar (unat b mod 16) # fmt_x bs"
  by (simp add: fmt_x_def)

lemma less_16_D:
  "d < 16 \<Longrightarrow> d \<in> set [0, 1, 2, 3, 4, 5, 6, 7, 8, 9, 10, 11, 12, 13, 14, 15 :: nat]"
  by (simp add: eval_nat_numeral less_Suc_eq)

lemma hexchar_facts:
  "\<forall>d \<in> set [0, 1, 2, 3, 4, 5, 6, 7, 8, 9, 10, 11, 12, 13, 14, 15].
     hexDigit (hexchar d) = Some d \<and> hexchar d \<noteq> CHR 0x0A \<and>
     (of_char (hexchar d) :: nat) \<notin> {9, 11, 12, 13, 32, 0xC2, 0xE1, 0xE2, 0xE3}"
  by (simp add: hexDigit_def hexchar_def)

lemma hexDigit_hexchar: "d < 16 \<Longrightarrow> hexDigit (hexchar d) = Some d"
  using hexchar_facts less_16_D by blast

lemma hexchar_not_space:
  assumes "d < 16"
  shows "space_width (of_char (hexchar d) # t) = 0" and "hexchar d \<noteq> CHR 0x0A"
proof -
  have "(of_char (hexchar d) :: nat) \<notin> {9, 11, 12, 13, 32, 0xC2, 0xE1, 0xE2, 0xE3}"
    using hexchar_facts less_16_D[OF assms] by blast
  then show "space_width (of_char (hexchar d) # t) = 0"
    by (simp add: space_width_def split: list.splits)
  show "hexchar d \<noteq> CHR 0x0A" using hexchar_facts less_16_D[OF assms] by blast
qed

lemma byte_nibbles: "unat (b :: byte) div 16 < 16" "unat b mod 16 < 16"
proof -
  have "unat b < 2 ^ 8" using unsigned_less[of b] by simp
  then show "unat b div 16 < 16" by simp
  show "unat b mod 16 < 16" by simp
qed

lemma hexString_fmt_x: "hexString (fmt_x bs) = Inr bs"
proof (induction bs)
  case Nil then show ?case by (simp add: fmt_x_def)
next
  case (Cons b bs)
  have "word_of_nat (unat b div 16 * 16 + unat b mod 16) = b" by simp
  then show ?case using Cons
    by (simp add: fmt_x_Cons hexDigit_hexchar byte_nibbles)
qed

lemma Sscanf_x_fmt_x:
  assumes "bs \<noteq> []"
  shows "Sscanf_x (fmt_x bs) = Inr bs"
proof -
  obtain b bs' where bs: "bs = b # bs'" using assms by (cases bs) auto
  have "SkipSpace (fmt_x bs) = Inr (fmt_x bs)"
    unfolding bs fmt_x_Cons
    by (subst SkipSpace.simps) (simp add: hexchar_not_space[OF byte_nibbles(1)])
  then show ?thesis using assms
    by (simp add: Sscanf_x_def hexString_fmt_x) (simp add: bs fmt_x_Cons)
qed

lemma UnlockHash_String_eq:
  "UnlockHash_String H uh = fmt_x uh @ fmt_x (take UnlockHashChecksumSize (H uh))"
  by (simp add: UnlockHash_String_def HashObject_UnlockHash_def HashBytes_def)

lemma UnlockHash_roundtrip:
  assumes "length uh = HashSize" and "length r = HashSize" and "\<forall>b. length (H b) = HashSize"
  shows "UnlockHash_LoadString H r (UnlockHash_String H uh) = (None, uh)"
proof -
  let ?cs = "take UnlockHashChecksumSize (H uh)"
  have lcs: "length ?cs = 6" using assms(3) by (simp add: UnlockHashChecksumSize_def HashSize_def)
  have luh: "length uh = 32" using assms(1) by (simp add: HashSize_def)
  have t: "take (HashSize * 2) (fmt_x uh @ fmt_x ?cs) = fmt_x uh"
    using luh by (simp add: HashSize_def)
  have d: "drop (HashSize * 2) (fmt_x uh @ fmt_x ?cs) = fmt_x ?cs"
    using luh by (simp add: HashSize_def)
  have n1: "uh \<noteq> []" using luh by auto
  have n2: "?cs \<noteq> []" using lcs by auto
  have l: "length (fmt_x uh @ fmt_x ?cs) = HashSize * 2 + UnlockHashChecksumSize * 2"
    using luh lcs by (simp add: HashSize_def UnlockHashChecksumSize_def)
  have "take (length r) uh = uh" and "drop (length uh) r = []" using assms(1,2) by simp_all
  then have c: "copy_bytes r uh = uh" by (simp only: copy_bytes_def append_Nil2)
  show ?thesis
    unfolding UnlockHash_String_eq UnlockHash_LoadString_def
    by (simp only: l t d Sscanf_x_fmt_x[OF n1] Sscanf_x_fmt_x[OF n2] HashBytes_def c Let_def)
       (simp add: c)
qed

text \<open>
  C4. For every unlock hash, \<open>LoadString\<close> of its \<open>String\<close> succeeds and loads that unlock
  hash. \<open>String\<close> is the 64 hex characters of the unlock hash followed by the 12 hex
  characters of the first 6 bytes of the hash of its bytes, and \<open>LoadString\<close> accepts only
  after comparing the checksum it recomputes (see the definition and the next theorem).
\<close>

theorem UnlockHash_String_LoadString:
  "length uh = HashSize \<and> length r = HashSize \<and> (\<forall>b. length (H b) = HashSize) \<longrightarrow>
     UnlockHash_LoadString H r (UnlockHash_String H uh) = (None, uh)
     \<and> UnlockHash_String H uh = fmt_x uh @ fmt_x (take 6 (HashBytes H uh))
     \<and> length (fmt_x uh) = 64
     \<and> length (fmt_x (take 6 (HashBytes H uh))) = 12"
proof (intro impI, elim conjE)
  assume a: "length uh = HashSize" "length r = HashSize" "\<forall>b. length (H b) = HashSize"
  have "length (H uh) = 32" using a(3) by (simp add: HashSize_def)
  then show "UnlockHash_LoadString H r (UnlockHash_String H uh) = (None, uh)
     \<and> UnlockHash_String H uh = fmt_x uh @ fmt_x (take 6 (HashBytes H uh))
     \<and> length (fmt_x uh) = 64
     \<and> length (fmt_x (take 6 (HashBytes H uh))) = 12"
    using UnlockHash_roundtrip[OF a] a(1)
    by (simp add: UnlockHash_String_eq UnlockHashChecksumSize_def HashBytes_def HashSize_def)
qed

theorem UnlockHash_String_LoadString_witness:
  "length ex_hash = HashSize \<and> length (replicate 32 (0::byte)) = HashSize
   \<and> (\<forall>b. length (ex_H b) = HashSize)
   \<and> UnlockHash_LoadString ex_H (replicate 32 0) (UnlockHash_String ex_H ex_hash) = (None, ex_hash)"
proof -
  have h: "length ex_hash = HashSize \<and> length (replicate 32 (0::byte)) = HashSize
           \<and> (\<forall>b. length (ex_H b) = HashSize)"
    by (simp add: ex_hash_def HashSize_def ex_H_def min_def)
  then show ?thesis
    using UnlockHash_String_LoadString[of ex_hash "replicate 32 0" ex_H] by blast
qed

text \<open>
  C5. \<open>LoadString\<close> returns the wrong-length error for every string whose length is not
  \<open>2 * 32 + 2 * 6 = 76\<close>. For a string of that length whose two parts scan as hex, it
  returns the checksum error when the first 6 bytes of the hash of the bytes scanned from
  the first part differ from the bytes scanned from the second part. Whenever it returns
  an error the receiver is as it was.
\<close>

theorem UnlockHash_LoadString_errors:
  "(length s \<noteq> 76 \<longrightarrow> UnlockHash_LoadString H uh s = (Some ErrUnlockHashWrongLen, uh))
   \<and> (length s = 76 \<and> Sscanf_x (take 64 s) = Inr a \<and> Sscanf_x (drop 64 s) = Inr c
        \<and> take 6 (HashBytes H a) \<noteq> c \<longrightarrow>
      UnlockHash_LoadString H uh s = (Some ErrInvalidUnlockHashChecksum, uh))
   \<and> (fst (UnlockHash_LoadString H uh s) \<noteq> None \<longrightarrow> snd (UnlockHash_LoadString H uh s) = uh)"
  by (auto simp: UnlockHash_LoadString_def HashSize_def UnlockHashChecksumSize_def Let_def
      split: sum.splits)

theorem UnlockHash_LoadString_errors_witness:
  "length ''abc'' \<noteq> 76
   \<and> UnlockHash_LoadString ex_H ex_hash ''abc'' = (Some ErrUnlockHashWrongLen, ex_hash)
   \<and> length ex_bad_text = 76
   \<and> Sscanf_x (take 64 ex_bad_text) = Inr (replicate 32 1)
   \<and> Sscanf_x (drop 64 ex_bad_text) = Inr (replicate 6 0)
   \<and> take 6 (HashBytes ex_H (replicate 32 1)) \<noteq> replicate 6 0
   \<and> UnlockHash_LoadString ex_H ex_hash ex_bad_text = (Some ErrInvalidUnlockHashChecksum, ex_hash)
   \<and> fst (UnlockHash_LoadString ex_H ex_hash ex_bad_text) \<noteq> None
   \<and> snd (UnlockHash_LoadString ex_H ex_hash ex_bad_text) = ex_hash"
proof -
  have l: "length ex_bad_text = 76" by (simp add: ex_bad_text_def)
  have t: "take 64 ex_bad_text = fmt_x (replicate 32 1)" by (simp add: ex_bad_text_def)
  have d: "drop 64 ex_bad_text = fmt_x (replicate 6 0)" by (simp add: ex_bad_text_def)
  have s1: "Sscanf_x (take 64 ex_bad_text) = Inr (replicate 32 1)"
    unfolding t by (rule Sscanf_x_fmt_x) simp
  have s2: "Sscanf_x (drop 64 ex_bad_text) = Inr (replicate 6 0)"
    unfolding d by (rule Sscanf_x_fmt_x) simp
  have e6: "(6::nat) = Suc (Suc (Suc (Suc (Suc (Suc 0)))))" by simp
  have c: "take 6 (HashBytes ex_H (replicate 32 1)) \<noteq> replicate 6 0"
    by (simp add: HashBytes_def ex_H_def e6)
  show ?thesis
    using UnlockHash_LoadString_errors[of "''abc''" ex_H ex_hash]
      UnlockHash_LoadString_errors[of ex_bad_text ex_H ex_hash "replicate 32 1" "replicate 6 0"]
      l s1 s2 c
    by simp
qed


section \<open>Specifiers and public keys as text\<close>

lemma range_zero_no_zero:
  "0 \<notin> set s \<Longrightarrow> s \<noteq> [] \<Longrightarrow> range_zero s k = k + length s - 1"
  by (induction s k rule: range_zero.induct) auto

lemma range_zero_found:
  "0 \<in> set s \<Longrightarrow> range_zero s k = k + length (takeWhile (\<lambda>b. b \<noteq> 0) s)"
  by (induction s k rule: range_zero.induct) auto

lemma Specifier_String_zero:
  "0 \<in> set s \<Longrightarrow> Specifier_String s = map char_of_byte (takeWhile (\<lambda>b. b \<noteq> 0) s)"
  by (simp add: Specifier_String_def range_zero_found takeWhile_eq_take[symmetric])

lemma Specifier_String_no_zero:
  "0 \<notin> set s \<Longrightarrow> Specifier_String s = map char_of_byte (butlast s)"
  by (cases "s = []") (simp_all add: Specifier_String_def range_zero_no_zero butlast_conv_take)

lemma replicate_16: "replicate 16 x = [x, x, x, x, x, x, x, x, x, x, x, x, x, x, x, x]"
  by (simp add: eval_nat_numeral)

lemma Specifier_String_host:
  "Specifier_String (Specifier_copy (replicate 16 0) ''host'') = ''host''"
  unfolding replicate_16
  by (simp add: Specifier_String_def Specifier_copy_def copy_bytes_def byte_of_char_def
      char_of_byte_def char_of_eq_iff)

text \<open>
  C7. \<open>Specifier.String\<close> returns the bytes before the first zero byte when there is one
  (\<open>Specifier_String_zero\<close>, and \<open>Specifier_String_host\<close> for the text \<open>host\<close>). When
  no byte is zero the loop ends with \<open>i\<close> at the last index, not after it, and the last
  byte is left out (\<open>Specifier_String_no_zero\<close>): the 16-byte specifier
  \<open>file contract re\<close> is rendered as its first 15 bytes.
\<close>

theorem Specifier_String_sixteen:
  "length (map byte_of_char ''file contract re'') = 16
   \<and> 0 \<notin> set (map byte_of_char ''file contract re'')
   \<and> Specifier_String (map byte_of_char ''file contract re'') = ''file contract r''"
  by (simp add: Specifier_String_def byte_of_char_def char_of_byte_def char_of_eq_iff)

lemma Split_colon_length:
  "length (Split_colon s) = Suc (length (filter (\<lambda>c. c = CHR '':'') s))"
  by (induction s) (auto split: list.splits)

lemma PisPublicKey_LoadString_malformed:
  "length (filter (\<lambda>c. c = CHR '':'') s) \<noteq> 1 \<Longrightarrow> PisPublicKey_LoadString spk s = spk"
  by (simp add: PisPublicKey_LoadString_def Split_colon_length)

lemma PisPublicKey_LoadString_fresh:
  "length (filter (\<lambda>c. c = CHR '':'') s) \<noteq> 1 \<Longrightarrow>
   spk_Key (PisPublicKey_LoadString \<lparr>spk_Algorithm = replicate 16 0, spk_Key = []\<rparr> s) = []"
  by (simp add: PisPublicKey_LoadString_malformed)

text \<open>
  C8. For every string that does not contain exactly one \<open>:\<close>,
  \<open>PisPublicKey.LoadString\<close> returns without a result and without touching the
  receiver (\<open>PisPublicKey_LoadString_malformed\<close>), so a fresh \<open>PisPublicKey\<close> ends
  with an empty key (\<open>PisPublicKey_LoadString_fresh\<close>). A receiver that holds a key
  keeps it: the text \<open>foo\<close> has no \<open>:\<close> and the key is still there afterwards,
  whereas the path that fails on the hex digits, as for \<open>ed25519:zz\<close>, empties the key.
\<close>

theorem PisPublicKey_LoadString_keeps_key:
  "length (filter (\<lambda>c. c = CHR '':'') ''foo'') \<noteq> 1
   \<and> spk_Key ex_spk \<noteq> []
   \<and> spk_Key (PisPublicKey_LoadString ex_spk ''foo'') = spk_Key ex_spk
   \<and> spk_Key (PisPublicKey_LoadString ex_spk ''ed25519:zz'') = []"
  by (simp add: PisPublicKey_LoadString_def ex_spk_def hexDigit_def)

section \<open>Currency as JSON\<close>

lemma dropWhile_replicate_append:
  "P q \<Longrightarrow> dropWhile P (replicate j q @ xs) = dropWhile P xs"
  by (induction j) simp_all

lemma Trim_quote_quotes:
  "Trim_quote (replicate j (CHR 0x22) @ b @ replicate k (CHR 0x22)) = Trim_quote b"
proof -
  let ?P = "\<lambda>c. c = CHR 0x22"
  have 1: "dropWhile ?P (replicate j (CHR 0x22) @ b @ replicate k (CHR 0x22))
           = dropWhile ?P (b @ replicate k (CHR 0x22))"
    by (rule dropWhile_replicate_append) simp
  show ?thesis
  proof (cases "\<forall>x\<in>set b. ?P x")
    case True
    then have a: "dropWhile ?P (b @ replicate k (CHR 0x22)) = []" and b: "dropWhile ?P b = []"
      by simp_all
    show ?thesis unfolding Trim_quote_def 1 a b ..
  next
    case False
    then obtain x where "x \<in> set b" "\<not> ?P x" by blast
    then have 2: "dropWhile ?P (b @ replicate k (CHR 0x22))
                  = dropWhile ?P b @ replicate k (CHR 0x22)"
      by (rule dropWhile_append1)
    have 3: "dropWhile ?P (replicate k (CHR 0x22) @ rev (dropWhile ?P b))
             = dropWhile ?P (rev (dropWhile ?P b))"
      by (rule dropWhile_replicate_append) simp
    show ?thesis unfolding Trim_quote_def 1 2 rev_append rev_replicate 3 ..
  qed
qed

lemma Trim_quote_id:
  assumes "s \<noteq> []" and "hd s \<noteq> CHR 0x22" and "last s \<noteq> CHR 0x22"
  shows "Trim_quote s = s"
proof -
  have "dropWhile (\<lambda>c. c = CHR 0x22) s = s" using assms(1,2) by (cases s) simp_all
  moreover have "dropWhile (\<lambda>c. c = CHR 0x22) (rev s) = rev s"
    using assms(1,3) by (cases "rev s") (simp_all add: last_rev[symmetric] hd_rev)
  ultimately show ?thesis by (simp add: Trim_quote_def)
qed

lemma digit_char_eq: "d < 10 \<Longrightarrow> (char_of (48 + d) = c) = ((of_char c :: nat) = 48 + d)"
  for d :: nat
  by (auto simp: char_of_eq_iff take_bit_eq_mod)

lemma digitval_digit: "n < 10 \<Longrightarrow> digitval (char_of (48 + n)) = n"
  by (simp add: digitval_def)

lemma dec_nat_small: "n < 10 \<Longrightarrow> dec_nat n = [char_of (48 + n)]"
  by (subst dec_nat.simps) simp

lemma dec_nat_large:
  "\<not> n < 10 \<Longrightarrow> dec_nat n = dec_nat (n div 10) @ [char_of (48 + n mod 10)]"
  by (subst dec_nat.simps) simp

lemma scan_digits_dec_nat:
  "scan_digits 10 (dec_nat n @ rest) acc cnt
   = scan_digits 10 rest (acc * 10 ^ length (dec_nat n) + n) (cnt + length (dec_nat n))"
proof (induction n arbitrary: rest acc cnt rule: dec_nat.induct)
  case (1 n)
  show ?case
  proof (cases "n < 10")
    case True
    then show ?thesis by (simp add: dec_nat_small digitval_digit)
  next
    case False
    let ?l = "length (dec_nat (n div 10))"
    have m: "n mod 10 < 10" by simp
    have l: "length (dec_nat n) = Suc ?l" by (simp add: dec_nat_large[OF False])
    have e: "(acc * 10 ^ ?l + n div 10) * 10 + n mod 10 = acc * 10 ^ Suc ?l + n"
      by (simp add: algebra_simps)
    have "scan_digits 10 (dec_nat n @ rest) acc cnt
          = scan_digits 10 (dec_nat (n div 10) @ (char_of (48 + n mod 10) # rest)) acc cnt"
      by (simp add: dec_nat_large[OF False])
    also have "\<dots> = scan_digits 10 (char_of (48 + n mod 10) # rest)
                       (acc * 10 ^ ?l + n div 10) (cnt + ?l)"
      by (rule "1.IH"[OF False])
    also have "\<dots> = scan_digits 10 rest ((acc * 10 ^ ?l + n div 10) * 10 + n mod 10)
                       (Suc (cnt + ?l))"
      by (simp add: digitval_digit[OF m])
    also have "\<dots> = scan_digits 10 rest (acc * 10 ^ length (dec_nat n) + n)
                       (cnt + length (dec_nat n))"
      unfolding e l by simp
    finally show ?thesis .
  qed
qed

lemma dec_nat_hd:
  "0 < n \<Longrightarrow> \<exists>(d::nat) r. dec_nat n = char_of (48 + d) # r \<and> 0 < d \<and> d < 10"
proof (induction n rule: dec_nat.induct)
  case (1 n)
  show ?case
  proof (cases "n < 10")
    case True
    then have "dec_nat n = char_of (48 + n) # [] \<and> 0 < n \<and> n < 10"
      using "1.prems" by (simp add: dec_nat_small)
    then show ?thesis by blast
  next
    case False
    then have "0 < n div 10" by simp
    from "1.IH"[OF False this] obtain d :: nat and r where
      "dec_nat (n div 10) = char_of (48 + d) # r" "0 < d" "d < 10" by blast
    then have "dec_nat n = char_of (48 + d) # (r @ [char_of (48 + n mod 10)]) \<and> 0 < d \<and> d < 10"
      by (simp add: dec_nat_large[OF False])
    then show ?thesis by blast
  qed
qed

lemma dec_nat_first: "\<exists>(d::nat) r. dec_nat n = char_of (48 + d) # r \<and> d < 10"
proof (cases "n = 0")
  case True
  then have "dec_nat n = char_of (48 + (0::nat)) # [] \<and> (0::nat) < 10"
    by (simp add: dec_nat_small)
  then show ?thesis by blast
next
  case False
  then show ?thesis using dec_nat_hd[of n] by auto
qed

lemma dec_nat_last: "\<exists>(d::nat) r. dec_nat n = r @ [char_of (48 + d)] \<and> d < 10"
proof (cases "n < 10")
  case True
  then have "dec_nat n = [] @ [char_of (48 + n)] \<and> n < 10" by (simp add: dec_nat_small)
  then show ?thesis by blast
next
  case False
  have "dec_nat n = dec_nat (n div 10) @ [char_of (48 + n mod 10)] \<and> n mod 10 < 10"
    using dec_nat_large[OF False] by simp
  then show ?thesis by blast
qed

lemma digit_chars_distinct:
  fixes d :: nat
  assumes "d < 10"
  shows "char_of (48 + d) \<noteq> CHR 0x22" "char_of (48 + d) \<noteq> CHR ''-''"
    "char_of (48 + d) \<noteq> CHR ''+''" "char_of (48 + d) \<noteq> CHR ''l''"
    "0 < d \<Longrightarrow> char_of (48 + d) \<noteq> CHR ''0''"
  using assms by (simp_all add: digit_char_eq)

lemma nat_scan_dec_nat: "nat_scan (dec_nat n) = Some (n, [])"
proof (cases "n = 0")
  case True
  have "char_of (48::nat) = CHR ''0''" by (simp add: char_of_eq_iff)
  then show ?thesis using True by (simp add: dec_nat_small nat_scan_def)
next
  case False
  then obtain d :: nat and r where h: "dec_nat n = char_of (48 + d) # r" "0 < d" "d < 10"
    using dec_nat_hd[of n] by auto
  have s: "scan_digits 10 (dec_nat n) 0 0 = (n, length (dec_nat n), [])"
    using scan_digits_dec_nat[of n "[]" 0 0] by simp
  have b: "scan_base 10 (dec_nat n) = Some (n, [])"
    unfolding scan_base_def s using h(1) by simp
  have "nat_scan (char_of (48 + d) # r) = scan_base 10 (char_of (48 + d) # r)"
    using digit_chars_distinct(5)[OF h(3) h(2)] by (simp add: nat_scan_def)
  then show ?thesis using b unfolding h(1) by simp
qed

lemma big_SetString_dec_nat: "big_SetString (dec_nat n) = Some (int n)"
proof -
  obtain d :: nat and r where h: "dec_nat n = char_of (48 + d) # r" "d < 10"
    using dec_nat_first by blast
  have "big_SetString (char_of (48 + d) # r) = Some (int n)"
    using nat_scan_dec_nat[of n] digit_chars_distinct(2,3)[OF h(2)] unfolding h(1)
    by (simp add: big_SetString_def)
  then show ?thesis unfolding h(1) .
qed


lemma dec_nat_not_null: "dec_nat n \<noteq> ''null''"
proof
  assume a: "dec_nat n = ''null''"
  obtain d :: nat and r where h: "dec_nat n = r @ [char_of (48 + d)]" "d < 10"
    using dec_nat_last by blast
  have "last (dec_nat n) = char_of (48 + d)" unfolding h(1) by simp
  moreover have "last (dec_nat n) = CHR ''l''" unfolding a by simp
  ultimately show False using digit_chars_distinct(4)[OF h(2)] by simp
qed

lemma Trim_quote_dec_nat: "Trim_quote (dec_nat n) = dec_nat n"
proof -
  obtain d :: nat and r where h: "dec_nat n = r @ [char_of (48 + d)]" "d < 10"
    using dec_nat_last by blast
  obtain d' :: nat and r' where h': "dec_nat n = char_of (48 + d') # r'" "d' < 10"
    using dec_nat_first by blast
  have "last (dec_nat n) = char_of (48 + d)" unfolding h(1) by simp
  then have 1: "last (dec_nat n) \<noteq> CHR 0x22" using digit_chars_distinct(1)[OF h(2)] by simp
  have "hd (dec_nat n) = char_of (48 + d')" unfolding h'(1) by simp
  then have 2: "hd (dec_nat n) \<noteq> CHR 0x22" using digit_chars_distinct(1)[OF h'(2)] by simp
  have 3: "dec_nat n \<noteq> []" unfolding h(1) by simp
  show ?thesis using 3 2 1 by (rule Trim_quote_id)
qed


lemma Currency_UnmarshalJSON_dec_nat:
  "Currency_UnmarshalJSON c (dec_nat n) = (None, Some \<lparr>cur_i = int n\<rparr>)"
  by (simp add: Currency_UnmarshalJSON_def big_UnmarshalJSON_def Trim_quote_dec_nat
      dec_nat_not_null big_SetString_dec_nat)

lemma Currency_UnmarshalJSON_quotes:
  "Currency_UnmarshalJSON c (replicate j (CHR 0x22) @ b @ replicate k (CHR 0x22))
   = Currency_UnmarshalJSON c b"
  by (simp add: Currency_UnmarshalJSON_def Trim_quote_quotes)



text \<open>
  C10. \<open>Currency.UnmarshalJSON\<close> gives the same result whatever number of \<open>"\<close> is put
  in front of and behind its input, so the decimal text of every non-negative number
  decodes to that number bare, quoted once (the form \<open>MarshalJSON\<close> writes) or quoted
  several times.
\<close>

theorem Currency_UnmarshalJSON_quoting:
  "Currency_UnmarshalJSON c (replicate j (CHR 0x22) @ b @ replicate k (CHR 0x22))
     = Currency_UnmarshalJSON c b
   \<and> Trim_quote (replicate j (CHR 0x22) @ b @ replicate k (CHR 0x22)) = Trim_quote b
   \<and> big_String (int n) = dec_nat n
   \<and> Currency_UnmarshalJSON c (big_String (int n)) = (None, Some \<lparr>cur_i = int n\<rparr>)
   \<and> Currency_UnmarshalJSON c (Currency_MarshalJSON \<lparr>cur_i = int n\<rparr>)
       = (None, Some \<lparr>cur_i = int n\<rparr>)
   \<and> Currency_UnmarshalJSON c
        (replicate j (CHR 0x22) @ big_String (int n) @ replicate k (CHR 0x22))
       = (None, Some \<lparr>cur_i = int n\<rparr>)"
proof -
  have s: "big_String (int n) = dec_nat n" by (simp add: big_String_def)
  have m: "Currency_MarshalJSON \<lparr>cur_i = int n\<rparr>
           = replicate 1 (CHR 0x22) @ dec_nat n @ replicate 1 (CHR 0x22)"
    by (simp add: Currency_MarshalJSON_def s)
  show ?thesis
    unfolding m s Currency_UnmarshalJSON_quotes Trim_quote_quotes Currency_UnmarshalJSON_dec_nat
    by simp
qed


end
